theory Spec2Isabelle
  imports Complex_Main "HOL-Library.Multiset" "HOL-Library.Monad_Syntax"
begin

section \<open>The visual tree\<close>

text \<open>
  Nodes are identified by numbers. The tree is kept as the browser keeps it: every node
  has its ordered list of child nodes and a parent pointer. \<open>nodeType\<close> is 1 for an
  element; \<open>children\<close>, \<open>previousElementSibling\<close> and \<open>lastElementChild\<close> see
  elements only, \<open>nextSibling\<close> sees every node. What the source asks of the browser
  (selector matching, computed style, attributes, the animation flags and target
  rectangles) is a field of the tree.
\<close>

type_synonym nid = nat

record rect =
  r_top :: real
  r_left :: real
  r_bottom :: real
  r_right :: real
  r_width :: real
  r_height :: real

record dom =
  childNodes :: "nid \<Rightarrow> nid list"
  parentNode :: "nid \<Rightarrow> nid option"
  host :: "nid \<Rightarrow> nid option"
  document :: nid
  nodeType :: "nid \<Rightarrow> nat"
  nodeName :: "nid \<Rightarrow> string"
  native_matches :: "nid \<Rightarrow> string \<Rightarrow> bool"
  computed_display :: "nid \<Rightarrow> string"
  style_display :: "nid \<Rightarrow> string"
  sheet_display :: "nid \<Rightarrow> string"
  getAttribute :: "nid \<Rightarrow> string \<Rightarrow> string option"
  animated :: "nid \<Rightarrow> bool"
  animatingX :: "nid \<Rightarrow> bool"
  animatingY :: "nid \<Rightarrow> bool"
  isContentEditable :: "nid \<Rightarrow> bool"
  tagName :: "nid \<Rightarrow> string"
  toRect :: "nid \<Rightarrow> rect option"

definition isElement :: "dom \<Rightarrow> nid \<Rightarrow> bool" where
  "isElement d n = (nodeType d n = 1)"

definition children :: "dom \<Rightarrow> nid \<Rightarrow> nid list" where
  "children d p = filter (isElement d) (childNodes d p)"

text \<open>
  The element siblings before a node, nearest first: the nodes that repeated
  \<open>previousElementSibling\<close> visits.
\<close>

definition previousElementSiblings :: "dom \<Rightarrow> nid \<Rightarrow> nid list" where
  "previousElementSiblings d e =
     (case parentNode d e of
        None \<Rightarrow> []
      | Some p \<Rightarrow> rev (filter (isElement d) (takeWhile (\<lambda>x. x \<noteq> e) (childNodes d p))))"

text \<open>The nodes after a node among its parent's child nodes, nearest first.\<close>

definition nextSiblings :: "dom \<Rightarrow> nid \<Rightarrow> nid list" where
  "nextSiblings d e =
     (case parentNode d e of
        None \<Rightarrow> []
      | Some p \<Rightarrow> tl (dropWhile (\<lambda>x. x \<noteq> e) (childNodes d p)))"

definition nextSibling :: "dom \<Rightarrow> nid \<Rightarrow> nid option" where
  "nextSibling d e = (case nextSiblings d e of [] \<Rightarrow> None | x # _ \<Rightarrow> Some x)"

definition nextElementSibling :: "dom \<Rightarrow> nid \<Rightarrow> nid option" where
  "nextElementSibling d e =
     (case filter (isElement d) (nextSiblings d e) of [] \<Rightarrow> None | x # _ \<Rightarrow> Some x)"

text \<open>
  A well-formed tree: the parent pointers and the child lists agree, and no node is
  listed twice.
\<close>

definition wf_dom :: "dom \<Rightarrow> bool" where
  "wf_dom d =
     ((\<forall>p n. (n \<in> set (childNodes d p)) = (parentNode d n = Some p)) \<and>
      (\<forall>p. distinct (childNodes d p)))"

subsection \<open>Strings\<close>

definition upper_char :: "char \<Rightarrow> char" where
  "upper_char c =
     (case map_of (zip ''abcdefghijklmnopqrstuvwxyz'' ''ABCDEFGHIJKLMNOPQRSTUVWXYZ'') c of
        Some u \<Rightarrow> u
      | None \<Rightarrow> c)"

definition toUpperCase :: "string \<Rightarrow> string" where
  "toUpperCase s = map upper_char s"

text \<open>A selector argument is absent (\<open>None\<close>) or a string; the empty string is falsy.\<close>

definition truthy_str :: "string option \<Rightarrow> bool" where
  "truthy_str s = (case s of None \<Rightarrow> False | Some x \<Rightarrow> x \<noteq> [])"

subsection \<open>utils: matches, getParentOrHost, closest, index\<close>

text \<open>
  \<open>matches\<close> returns nothing (falsy) without a selector, drops one leading \<open>></\<close>
  and asks the browser; a throw of the browser's matcher is caught and gives false, which
  \<open>native_matches\<close> already holds.
\<close>

definition matches :: "dom \<Rightarrow> nid option \<Rightarrow> string option \<Rightarrow> bool" where
  "matches d el selector =
     (case selector of
        None \<Rightarrow> False
      | Some s \<Rightarrow>
          if s = [] then False
          else (let s' = (if hd s = CHR ''>'' then tl s else s)
                in case el of None \<Rightarrow> False | Some e \<Rightarrow> native_matches d e s'))"

definition getParentOrHost :: "dom \<Rightarrow> nid \<Rightarrow> nid option" where
  "getParentOrHost d el =
     (case host d el of
        Some h \<Rightarrow> if el \<noteq> document d \<and> nodeType d h \<noteq> 0 then Some h else parentNode d el
      | None \<Rightarrow> parentNode d el)"

text \<open>
  The upward walk of \<open>closest\<close>. Its result is \<open>None\<close> when the walk never ends,
  \<open>Some None\<close> for the source's \<open>null\<close>.
\<close>

partial_function (option) closest_loop ::
  "dom \<Rightarrow> string option \<Rightarrow> nid \<Rightarrow> bool \<Rightarrow> nid \<Rightarrow> nid option option" where
  "closest_loop d selector ctx includeCTX el =
     (if (selector \<noteq> None \<and>
          (if (case selector of Some (c # _) \<Rightarrow> c = CHR ''>'' | _ \<Rightarrow> False)
           then parentNode d el = Some ctx \<and> matches d (Some el) selector
           else matches d (Some el) selector)) \<or>
         (includeCTX \<and> el = ctx)
      then Some (Some el)
      else if el = ctx then Some None
      else (case getParentOrHost d el of
              None \<Rightarrow> Some None
            | Some p \<Rightarrow> closest_loop d selector ctx includeCTX p))"

definition closest :: "dom \<Rightarrow> nid option \<Rightarrow> string option \<Rightarrow> nid \<Rightarrow> bool \<Rightarrow> nid option option" where
  "closest d el selector ctx includeCTX =
     (case el of None \<Rightarrow> Some None | Some e \<Rightarrow> closest_loop d selector ctx includeCTX e)"

text \<open>
  \<open>a.contains(b)\<close> of the browser: \<open>b\<close> is \<open>a\<close> or a descendant of it, found by
  following the parent pointers from \<open>b\<close>.
\<close>

partial_function (option) contains_loop :: "dom \<Rightarrow> nid \<Rightarrow> nid \<Rightarrow> bool option" where
  "contains_loop d a b =
     (if b = a then Some True
      else (case parentNode d b of None \<Rightarrow> Some False | Some p \<Rightarrow> contains_loop d a p))"

definition contains :: "dom \<Rightarrow> nid \<Rightarrow> nid option \<Rightarrow> bool option" where
  "contains d a b = (case b of None \<Rightarrow> Some False | Some x \<Rightarrow> contains_loop d a x)"

text \<open>
  \<open>index\<close>: the loop over the previous element siblings, with the counter as an
  accumulator. \<open>clone\<close> is \<open>Sortable.clone\<close>.
\<close>

definition index_counts :: "dom \<Rightarrow> nid option \<Rightarrow> string option \<Rightarrow> nid \<Rightarrow> bool" where
  "index_counts d clone selector x =
     (toUpperCase (nodeName d x) \<noteq> ''TEMPLATE'' \<and> Some x \<noteq> clone \<and>
      (if truthy_str selector then matches d (Some x) selector else True))"

fun index_loop :: "dom \<Rightarrow> nid option \<Rightarrow> string option \<Rightarrow> nid list \<Rightarrow> int \<Rightarrow> int" where
  "index_loop d clone selector [] i = i"
| "index_loop d clone selector (x # xs) i =
     index_loop d clone selector xs (if index_counts d clone selector x then i + 1 else i)"

definition index :: "dom \<Rightarrow> nid option \<Rightarrow> nid option \<Rightarrow> string option \<Rightarrow> int" where
  "index d clone el selector =
     (case el of
        None \<Rightarrow> - 1
      | Some e \<Rightarrow>
          (case parentNode d e of
             None \<Rightarrow> - 1
           | Some p \<Rightarrow> index_loop d clone selector (previousElementSiblings d e) 0))"

subsection \<open>Tree mutation\<close>

text \<open>
  The browser's \<open>removeChild\<close>, \<open>insertBefore\<close> and \<open>appendChild\<close>, with the
  exceptions they raise: a reference child that is not a child of the parent, a node that
  would become its own ancestor, a node argument that is \<open>null\<close>. \<open>insertBefore\<close> takes
  the node out of its old parent first; a reference child equal to the node stands for the
  node's next sibling.
\<close>

datatype js_error =
  InvalidElement | TypeError | NotFoundError | HierarchyRequestError | NotImplemented

definition detach :: "dom \<Rightarrow> nid \<Rightarrow> dom" where
  "detach d n =
     (case parentNode d n of
        None \<Rightarrow> d
      | Some q \<Rightarrow>
          d \<lparr> childNodes := (childNodes d)(q := remove1 n (childNodes d q)),
              parentNode := (parentNode d)(n := None) \<rparr>)"

definition insert_before_list :: "nid \<Rightarrow> nid option \<Rightarrow> nid list \<Rightarrow> nid list" where
  "insert_before_list n r xs =
     (case r of
        None \<Rightarrow> xs @ [n]
      | Some c \<Rightarrow> takeWhile (\<lambda>x. x \<noteq> c) xs @ n # dropWhile (\<lambda>x. x \<noteq> c) xs)"

definition attach :: "dom \<Rightarrow> nid \<Rightarrow> nid \<Rightarrow> nid option \<Rightarrow> dom" where
  "attach d p n r =
     d \<lparr> childNodes := (childNodes d)(p := insert_before_list n r (childNodes d p)),
         parentNode := (parentNode d)(n := Some p) \<rparr>"

definition removeChild :: "dom \<Rightarrow> nid \<Rightarrow> nid option \<Rightarrow> js_error + dom" where
  "removeChild d p child =
     (case child of
        None \<Rightarrow> Inl TypeError
      | Some c \<Rightarrow> if parentNode d c \<noteq> Some p then Inl NotFoundError else Inr (detach d c))"

definition insertBefore :: "dom \<Rightarrow> nid \<Rightarrow> nid option \<Rightarrow> nid option \<Rightarrow> (js_error + dom) option" where
  "insertBefore d p node child =
     (case node of
        None \<Rightarrow> Some (Inl TypeError)
      | Some n \<Rightarrow>
          (case contains d n (Some p) of
             None \<Rightarrow> None
           | Some True \<Rightarrow> Some (Inl HierarchyRequestError)
           | Some False \<Rightarrow>
               (case child of
                  None \<Rightarrow> Some (Inr (attach (detach d n) p n None))
                | Some c \<Rightarrow>
                    if parentNode d c \<noteq> Some p then Some (Inl NotFoundError)
                    else Some (Inr (attach (detach d n) p n
                                      (if c = n then nextSibling d n else Some c))))))"

definition appendChild :: "dom \<Rightarrow> nid \<Rightarrow> nid option \<Rightarrow> (js_error + dom) option" where
  "appendChild d p node = insertBefore d p node None"

text \<open>Setting the inline \<open>display\<close> style: \<open>none\<close> hides, the empty string gives the
  style sheet's value back.\<close>

definition css_set_display :: "dom \<Rightarrow> nid option \<Rightarrow> string \<Rightarrow> dom" where
  "css_set_display d el v =
     (case el of
        None \<Rightarrow> d
      | Some e \<Rightarrow>
          d \<lparr> style_display := (style_display d)(e := v),
              computed_display := (computed_display d)(e := (if v = [] then sheet_display d e else v)) \<rparr>)"

section \<open>Sortable: options, instances and the module state\<close>

text \<open>
  The group object that \<open>_prepareGroup\<close> leaves in the options; two group objects
  are the same object when their references agree. What its \<open>checkPull\<close> and
  \<open>checkPut\<close> answer is a parameter (see \<open>helpers\<close>).
\<close>

record group =
  group_ref :: nat
  revertClone :: bool

datatype direction_opt = DirectionString string | DirectionFunction

datatype filter_opt = FilterFunction | FilterSelectors "string list"

text \<open>The store hooks: whether \<open>get\<close> exists and the order it returns, whether
  \<open>set\<close> exists.\<close>

record store =
  store_get :: "string list option option"
  store_set :: bool

record options =
  group :: group
  sort_opt :: bool
  disabled :: bool
  store :: "store option"
  handle :: "string option"
  draggable :: "string option"
  swapThreshold :: real
  invertSwap :: bool
  invertedSwapThreshold :: "real option"
  removeCloneOnHide :: bool
  direction :: direction_opt
  filter_opt :: "filter_opt option"
  dragoverBubble :: bool
  dataIdAttr :: string
  delay :: nat
  delayOnTouchOnly :: bool
  forceFallback :: bool

text \<open>The options as the caller passes them: every option may be left out.\<close>

record user_options =
  u_group :: "group option"
  u_sort :: "bool option"
  u_disabled :: "bool option"
  u_store :: "store option option"
  u_handle :: "string option option"
  u_draggable :: "string option option"
  u_swapThreshold :: "real option"
  u_invertSwap :: "bool option"
  u_invertedSwapThreshold :: "real option option"
  u_removeCloneOnHide :: "bool option"
  u_direction :: "direction_opt option"
  u_filter :: "filter_opt option option"
  u_dragoverBubble :: "bool option"
  u_dataIdAttr :: "string option"
  u_delay :: "nat option"
  u_delayOnTouchOnly :: "bool option"
  u_forceFallback :: "bool option"

datatype pull_result = PullFalse | PullTrue | PullClone

text \<open>
  A Sortable instance is identified by the element it was built on; \<open>has_animation\<close>
  says whether the animation state manager mixed into the instance brought its own
  \<open>captureAnimationState\<close>, \<open>animateAll\<close> and \<open>animate\<close> (the methods of the class
  itself throw "Method not implemented.").
\<close>

record sortable =
  el :: nid
  options :: options
  ignoreWhileAnimating :: "nid option"
  nativeDraggable :: bool
  lastPutMode :: "pull_result option"
  has_animation :: bool

datatype timer_action = ClearSilent | DragStartFn

datatype move_result = MoveFalse | MoveNumber int | MoveOther

text \<open>
  What a handler asks of its collaborators is recorded, in order: tree operations,
  animation capture and release, calls of the move hook with their answer, the hand-over
  to the empty-insert detection, and store writes.
\<close>

datatype effect =
    DomRemoveChild nid nid
  | DomInsertBefore nid nid "nid option"
  | CaptureAnimationState nid
  | AnimateAll nid
  | Animate nid
  | OnMoveCall nid "nid option" bool move_result
  | NearestEmptyInsertDetect
  | StoreSet nid

record event =
  evt_target :: "nid option"
  evt_cancelable :: bool
  evt_type :: string
  evt_button :: int
  evt_touch_target :: "nid option option"
  evt_pointerType :: "string option"
  evt_shadow_target :: "nid option"
  evt_clientX :: real
  evt_clientY :: real
  evt_rootEl :: "nid option"
  evt_is_document :: bool

record gstate =
  tree :: dom
  dragEl :: "nid option"
  parentEl :: "nid option"
  ghostEl :: "nid option"
  rootEl :: "nid option"
  nextEl :: "nid option"
  lastDownEl :: "nid option option"
  cloneEl :: "nid option"
  cloneHidden :: bool
  oldIndex :: "int option"
  newIndex :: "int option"
  oldDraggableIndex :: "int option"
  newDraggableIndex :: "int option"
  activeGroup :: "group option"
  putSortable :: "nid option"
  awaitingDragStarted :: bool
  ignoreNextClick :: bool
  sortables :: "nid list"
  tapEvt :: "(nid \<times> real \<times> real) option"
  moved :: bool
  lastTarget :: "nid option"
  lastDirection :: "int option"
  pastFirstInvertThresh :: bool
  isCircumstantialInvert :: bool
  targetMoveDistance :: real
  silent :: bool
  savedInputChecked :: "nid list"
  Sortable_active :: "nid option"
  Sortable_ghost :: "nid option"
  Sortable_clone :: "nid option"
  Sortable_dragged :: "nid option"
  eventCanceled :: bool
  expando :: "nid \<Rightarrow> sortable option"
  timers :: "(nat \<times> timer_action) list"
  effects :: "effect list"

text \<open>The arguments \<open>_onDragOver\<close> hands to \<open>_getSwapDirection\<close>, in the order of
  the call.\<close>

record swap_args =
  sa_evt :: event
  sa_target :: nid
  sa_targetRect :: rect
  sa_vertical :: bool
  sa_swapThreshold :: real
  sa_invertedSwapThreshold :: real
  sa_invertSwap :: bool
  sa_isLastTarget :: bool
  sa_dragEl :: "nid option"
  sa_targetMoveDistance :: real
  sa_pastFirstInvertThresh :: bool
  sa_lastDirection :: "int option"

text \<open>
  The parts the handlers call that are not in these files: the browser's layout, the
  helper module (\<open>_getSwapDirection\<close>, \<open>_ghostIsLast\<close>, \<open>_ghostIsFirst\<close>,
  \<open>_dragElInRowColumn\<close>, \<open>_detectDirection\<close>, \<open>_generateId\<close>,
  \<open>_saveInputCheckedState\<close>, \<open>onMove\<close>), the group's pull and put policies, the
  caller's filter function, and the browser constants. They are parameters of the model.
\<close>

record helpers =
  h_getBoundingClientRect :: "dom \<Rightarrow> nid \<Rightarrow> rect"
  h_getSwapDirection :: "swap_args \<Rightarrow> int"
  h_ghostIsLast :: "dom \<Rightarrow> event \<Rightarrow> bool \<Rightarrow> nid \<Rightarrow> bool"
  h_ghostIsFirst :: "dom \<Rightarrow> event \<Rightarrow> bool \<Rightarrow> nid \<Rightarrow> bool"
  h_dragElInRowColumn :: "rect \<Rightarrow> rect \<Rightarrow> bool \<Rightarrow> bool"
  h_direction :: "dom \<Rightarrow> event \<Rightarrow> nid option \<Rightarrow> nid option \<Rightarrow> string"
  h_generateId :: "dom \<Rightarrow> nid \<Rightarrow> string"
  h_saveInputCheckedState :: "dom \<Rightarrow> nid \<Rightarrow> nid list \<Rightarrow> nid list"
  h_onMove :: "dom \<Rightarrow> nid option \<Rightarrow> nid \<Rightarrow> nid option \<Rightarrow> nid option \<Rightarrow> event \<Rightarrow> bool \<Rightarrow> move_result"
  h_checkPull :: "group \<Rightarrow> nid \<Rightarrow> nid \<Rightarrow> nid option \<Rightarrow> event \<Rightarrow> pull_result"
  h_checkPut :: "group \<Rightarrow> nid \<Rightarrow> nid \<Rightarrow> nid option \<Rightarrow> event \<Rightarrow> bool"
  h_filter :: "event \<Rightarrow> nid option \<Rightarrow> bool"
  h_supportDraggable :: bool
  h_Safari :: bool
  h_Edge :: bool
  h_animation_manager :: bool
  h_animateAll_calls_back_now :: bool
  h_scrollingElement :: nid
  h_windowRect :: rect

subsection \<open>Runs of a handler\<close>

text \<open>
  A handler run ends with the module state it leaves and either a thrown error or its
  return value; \<open>None\<close> stands for a run that never ends (an upward walk in a tree
  whose parent pointers form a cycle).
\<close>

type_synonym 'a run = "(gstate \<times> (js_error + 'a)) option"

definition st_removeChild :: "gstate \<Rightarrow> nid \<Rightarrow> nid option \<Rightarrow> unit run" where
  "st_removeChild st p child =
     (case child of
        None \<Rightarrow> Some (st, Inl TypeError)
      | Some c \<Rightarrow>
          (case removeChild (tree st) p (Some c) of
             Inl e \<Rightarrow> Some (st, Inl e)
           | Inr d \<Rightarrow> Some (st \<lparr> tree := d, effects := effects st @ [DomRemoveChild p c] \<rparr>, Inr ())))"

definition st_insertBefore :: "gstate \<Rightarrow> nid \<Rightarrow> nid option \<Rightarrow> nid option \<Rightarrow> unit run" where
  "st_insertBefore st p node child =
     (case node of
        None \<Rightarrow> Some (st, Inl TypeError)
      | Some n \<Rightarrow>
          (case insertBefore (tree st) p (Some n) child of
             None \<Rightarrow> None
           | Some (Inl e) \<Rightarrow> Some (st, Inl e)
           | Some (Inr d) \<Rightarrow>
               Some (st \<lparr> tree := d, effects := effects st @ [DomInsertBefore p n child] \<rparr>, Inr ())))"

definition st_appendChild :: "gstate \<Rightarrow> nid \<Rightarrow> nid option \<Rightarrow> unit run" where
  "st_appendChild st p node = st_insertBefore st p node None"

text \<open>\<open>captureAnimationState\<close> of an instance: the class's own method throws.\<close>

definition captureAnimationState :: "gstate \<Rightarrow> nid \<Rightarrow> unit run" where
  "captureAnimationState st s =
     (case expando st s of
        None \<Rightarrow> Some (st, Inl TypeError)
      | Some i \<Rightarrow>
          if has_animation i
          then Some (st \<lparr> effects := effects st @ [CaptureAnimationState s] \<rparr>, Inr ())
          else Some (st, Inl NotImplemented))"

text \<open>\<open>animateAll?.()\<close>: skipped when the instance has no such method.\<close>

definition animateAll :: "gstate \<Rightarrow> nid \<Rightarrow> gstate" where
  "animateAll st s =
     (case expando st s of
        None \<Rightarrow> st
      | Some i \<Rightarrow> if has_animation i then st \<lparr> effects := effects st @ [AnimateAll s] \<rparr> else st)"

section \<open>toArray and sort\<close>

definition item_id :: "helpers \<Rightarrow> dom \<Rightarrow> options \<Rightarrow> nid \<Rightarrow> string" where
  "item_id H d opts c =
     (case getAttribute d c (dataIdAttr opts) of
        None \<Rightarrow> h_generateId H d c
      | Some v \<Rightarrow> if v = [] then h_generateId H d c else v)"

fun toArray_loop :: "helpers \<Rightarrow> dom \<Rightarrow> options \<Rightarrow> nid \<Rightarrow> nid list \<Rightarrow> string list option" where
  "toArray_loop H d opts r [] = Some []"
| "toArray_loop H d opts r (c # cs) =
     (case closest d (Some c) (draggable opts) r False of
        None \<Rightarrow> None
      | Some m \<Rightarrow>
          (case toArray_loop H d opts r cs of
             None \<Rightarrow> None
           | Some rest \<Rightarrow> Some (if m \<noteq> None then item_id H d opts c # rest else rest)))"

text \<open>
  The value of \<open>this\<close> in a method: the element a listener was registered on, or an
  instance, named by the element it was built on. \<open>Sortable.get(x)\<close> reads the
  property \<open>expando\<close> of \<open>x\<close>. The constructor puts that property on the element
  (\<open>el[expando] = this\<close>) and never on the instance, so on an instance the lookup gives
  \<open>undefined\<close>; and an element has no property \<open>el\<close>.
\<close>

datatype receiver = OnElement nid | OnInstance nid

definition Sortable_get :: "gstate \<Rightarrow> receiver \<Rightarrow> sortable option" where
  "Sortable_get st this = (case this of OnElement e \<Rightarrow> expando st e | OnInstance i \<Rightarrow> None)"

definition this_el :: "receiver \<Rightarrow> nid option" where
  "this_el this = (case this of OnElement e \<Rightarrow> None | OnInstance i \<Rightarrow> Some i)"

text \<open>
  \<open>toArray\<close>: \<open>_this = Sortable.get(this)\<close>, \<open>children = this.el?.children\<close>, and
  \<open>options = _this.options\<close> throws when \<open>_this\<close> is undefined. Without children
  the loop does not run.
\<close>

definition toArray :: "helpers \<Rightarrow> gstate \<Rightarrow> receiver \<Rightarrow> (js_error + string list) option" where
  "toArray H st this =
     (case Sortable_get st this of
        None \<Rightarrow> Some (Inl TypeError)
      | Some self \<Rightarrow>
          (case this_el this of
             None \<Rightarrow> Some (Inr [])
           | Some r \<Rightarrow>
               map_option Inr (toArray_loop H (tree st) (options self) r (children (tree st) r))))"

text \<open>
  The first loop of \<open>sort\<close>: the i-th identifier of \<open>toArray\<close> is paired with the i-th
  element child, and the pair is entered into \<open>items\<close> when that child is draggable.
\<close>

fun collect_items ::
  "dom \<Rightarrow> options \<Rightarrow> nid \<Rightarrow> (string \<times> nid) list \<Rightarrow> (string \<rightharpoonup> nid) \<Rightarrow> (string \<rightharpoonup> nid) option" where
  "collect_items d opts r [] m = Some m"
| "collect_items d opts r ((i, c) # xs) m =
     (case closest d (Some c) (draggable opts) r False of
        None \<Rightarrow> None
      | Some t \<Rightarrow> collect_items d opts r xs (if t \<noteq> None then m(i \<mapsto> c) else m))"

text \<open>The second loop: every identifier of the order that is in \<open>items\<close> has its
  element removed from the root and appended to it.\<close>

fun apply_order :: "gstate \<Rightarrow> nid \<Rightarrow> (string \<rightharpoonup> nid) \<Rightarrow> string list \<Rightarrow> unit run" where
  "apply_order st r items [] = Some (st, Inr ())"
| "apply_order st r items (i # ids) =
     (case items i of
        None \<Rightarrow> apply_order st r items ids
      | Some c \<Rightarrow>
          (case st_removeChild st r (Some c) of
             None \<Rightarrow> None
           | Some (st1, Inl e) \<Rightarrow> Some (st1, Inl e)
           | Some (st1, Inr _) \<Rightarrow>
               (case st_appendChild st1 r (Some c) of
                  None \<Rightarrow> None
                | Some (st2, Inl e) \<Rightarrow> Some (st2, Inl e)
                | Some (st2, Inr _) \<Rightarrow> apply_order st2 r items ids)))"

text \<open>
  \<open>sort\<close>: \<open>_this = Sortable.get(this)\<close> and \<open>rootEl = this.el\<close>; then
  \<open>_this.toArray()\<close> runs on the instance \<open>_this\<close>, its identifiers are paired with
  \<open>rootEl.children\<close> (a first identifier without a root throws), the animation state
  is captured on request, the order is applied and the animation released.
\<close>

definition sort :: "helpers \<Rightarrow> gstate \<Rightarrow> receiver \<Rightarrow> string list \<Rightarrow> bool \<Rightarrow> unit run" where
  "sort H st this order useAnimation =
     (case Sortable_get st this of
        None \<Rightarrow> Some (st, Inl TypeError)
      | Some self \<Rightarrow>
     (case toArray H st (OnInstance (el self)) of
        None \<Rightarrow> None
      | Some (Inl e) \<Rightarrow> Some (st, Inl e)
      | Some (Inr ids) \<Rightarrow>
          (case (case this_el this of
                   None \<Rightarrow> Some (if ids = [] then Inr Map.empty else Inl TypeError)
                 | Some r \<Rightarrow>
                     map_option Inr
                       (collect_items (tree st) (options self) r
                          (zip ids (children (tree st) r)) Map.empty)) of
             None \<Rightarrow> None
           | Some (Inl e) \<Rightarrow> Some (st, Inl e)
           | Some (Inr items) \<Rightarrow>
               (case (if useAnimation then captureAnimationState st (el self) else Some (st, Inr ())) of
                  None \<Rightarrow> None
                | Some (st1, Inl e) \<Rightarrow> Some (st1, Inl e)
                | Some (st1, Inr _) \<Rightarrow>
                    (case (case this_el this of
                             None \<Rightarrow> Some (st1, Inr ())
                           | Some r \<Rightarrow> apply_order st1 r items order) of
                       None \<Rightarrow> None
                     | Some (st2, Inl e) \<Rightarrow> Some (st2, Inl e)
                     | Some (st2, Inr _) \<Rightarrow>
                         Some (if useAnimation then animateAll st2 (el self) else st2, Inr ()))))))"

section \<open>The constructor\<close>

definition or_default :: "'a option \<Rightarrow> 'a \<Rightarrow> 'a" where
  "or_default v dflt = (case v of None \<Rightarrow> dflt | Some x \<Rightarrow> x)"

text \<open>
  The options after the defaults are filled in and \<open>_prepareGroup\<close> has run;
  \<open>prepared\<close> is the group object \<open>_prepareGroup\<close> makes of the caller's group.
\<close>

definition merge_defaults :: "dom \<Rightarrow> nid \<Rightarrow> user_options \<Rightarrow> group \<Rightarrow> options" where
  "merge_defaults d e uo prepared =
     \<lparr> group = prepared,
       sort_opt = or_default (u_sort uo) True,
       disabled = or_default (u_disabled uo) False,
       store = or_default (u_store uo) None,
       handle = or_default (u_handle uo) None,
       draggable = or_default (u_draggable uo)
         (Some (if toUpperCase (nodeName d e) \<in> {''UL'', ''OL''} then ''>li'' else ''>*'')),
       swapThreshold = or_default (u_swapThreshold uo) 1,
       invertSwap = or_default (u_invertSwap uo) False,
       invertedSwapThreshold = or_default (u_invertedSwapThreshold uo) None,
       removeCloneOnHide = or_default (u_removeCloneOnHide uo) True,
       direction = or_default (u_direction uo) DirectionFunction,
       filter_opt = or_default (u_filter uo) None,
       dragoverBubble = or_default (u_dragoverBubble uo) False,
       dataIdAttr = or_default (u_dataIdAttr uo) ''data-id'',
       delay = or_default (u_delay uo) 0,
       delayOnTouchOnly = or_default (u_delayOnTouchOnly uo) False,
       forceFallback = or_default (u_forceFallback uo) False \<rparr>"

text \<open>
  \<open>new Sortable(el, options)\<close>. The check of \<open>el\<close> comes first; then the instance is
  stored on the element, the element is pushed onto \<open>sortables\<close>, \<open>this.sort\<close> is
  called on the new instance with the stored order when the store has a \<open>get\<close>, and
  the animation state manager is mixed in last. Binding the listeners is left to the
  host. The run returns the element that identifies the new instance.
\<close>

definition Sortable_new ::
  "helpers \<Rightarrow> (group option \<Rightarrow> group) \<Rightarrow> gstate \<Rightarrow> nid option \<Rightarrow> user_options \<Rightarrow> nid run" where
  "Sortable_new H prepareGroup st e uo =
     (case e of
        None \<Rightarrow> Some (st, Inl InvalidElement)
      | Some x \<Rightarrow>
          if nodeType (tree st) x \<noteq> 1 then Some (st, Inl InvalidElement)
          else
            (let opts = merge_defaults (tree st) x uo (prepareGroup (u_group uo));
                 this = \<lparr> el = x, options = opts, ignoreWhileAnimating = None,
                          nativeDraggable = (if forceFallback opts then False else h_supportDraggable H),
                          lastPutMode = None, has_animation = False \<rparr>;
                 st1 = st \<lparr> expando := (expando st)(x \<mapsto> this), sortables := sortables st @ [x] \<rparr>;
                 mixin = (\<lambda>s. s \<lparr> expando := (expando s)(x \<mapsto> this \<lparr> has_animation := h_animation_manager H \<rparr>) \<rparr>)
             in case (case store opts of
                        None \<Rightarrow> None
                      | Some sto \<Rightarrow> store_get sto) of
                  None \<Rightarrow> Some (mixin st1, Inr x)
                | Some got \<Rightarrow>
                    (case sort H st1 (OnInstance x) (or_default got []) False of
                       None \<Rightarrow> None
                     | Some (st2, Inl err) \<Rightarrow> Some (st2, Inl err)
                     | Some (st2, Inr _) \<Rightarrow> Some (mixin st2, Inr x))))"

section \<open>The drag session: drop, tap start\<close>

text \<open>
  Style classes, the \<open>draggable\<close> attribute, CSS transforms, \<open>preventDefault\<close> and
  \<open>stopPropagation\<close>, and the subscription of listeners are left to the host: none of
  them is read again by the code modelled here. \<open>undefined\<close> and \<open>null\<close> are both
  \<open>None\<close>, except in \<open>lastDownEl\<close>, which \<open>_onTapStart\<close> compares with the
  \<open>null\<close> of \<open>closest\<close> by \<open>===\<close>: there \<open>None\<close> is \<open>undefined\<close> (the variable
  as the module declares it), \<open>Some None\<close> is \<open>null\<close> (as \<open>_nulling\<close> leaves it) and
  \<open>Some (Some t)\<close> an element.
\<close>

definition nulling :: "gstate \<Rightarrow> gstate" where
  "nulling st =
     st \<lparr> rootEl := None, dragEl := None, parentEl := None, ghostEl := None, nextEl := None,
          cloneEl := None, lastDownEl := Some None, cloneHidden := False, tapEvt := None,
          moved := False, newIndex := None, newDraggableIndex := None, oldIndex := None,
          oldDraggableIndex := None, lastTarget := None, lastDirection := None,
          putSortable := None, activeGroup := None, Sortable_dragged := None,
          Sortable_ghost := None, Sortable_clone := None, Sortable_active := None,
          savedInputChecked := [] \<rparr>"

definition save :: "gstate \<Rightarrow> sortable \<Rightarrow> gstate" where
  "save st this =
     (case store (options this) of
        None \<Rightarrow> st
      | Some sto \<Rightarrow> if store_set sto then st \<lparr> effects := effects st @ [StoreSet (el this)] \<rparr> else st)"

text \<open>\<open>x && x.parentNode && x.parentNode.removeChild(x)\<close>\<close>

definition remove_from_parent :: "gstate \<Rightarrow> nid option \<Rightarrow> gstate" where
  "remove_from_parent st x =
     (case x of
        None \<Rightarrow> st
      | Some n \<Rightarrow>
          (case parentNode (tree st) n of
             None \<Rightarrow> st
           | Some p \<Rightarrow> st \<lparr> tree := detach (tree st) n, effects := effects st @ [DomRemoveChild p n] \<rparr>))"

text \<open>An instance variable of another instance is read through the registry.\<close>

definition lastPutMode_of :: "gstate \<Rightarrow> nid \<Rightarrow> pull_result option" where
  "lastPutMode_of st s = (case expando st s of None \<Rightarrow> None | Some i \<Rightarrow> lastPutMode i)"

text \<open>
  The parts of \<open>_onDrop\<close> that run for a drop event: the ghost and, unless the item
  was cloned into another list, the clone are taken out of the tree; the list the item
  was put into saves its order; and for an active session a final index that is missing
  or -1 is replaced by the origin index before the list saves its order.
\<close>

definition drop_remove_ghost_clone :: "gstate \<Rightarrow> gstate" where
  "drop_remove_ghost_clone st =
     (let st3 = remove_from_parent st (ghostEl st)
      in if rootEl st3 = parentEl st3 \<or>
            (case putSortable st3 of
               None \<Rightarrow> False
             | Some ps \<Rightarrow> lastPutMode_of st3 ps \<noteq> Some PullClone)
         then remove_from_parent st3 (cloneEl st3) else st3)"

definition drop_save_put :: "gstate \<Rightarrow> gstate" where
  "drop_save_put st =
     (if rootEl st \<noteq> parentEl st
      then (case putSortable st of
              None \<Rightarrow> st
            | Some ps \<Rightarrow> (case expando st ps of None \<Rightarrow> st | Some psi \<Rightarrow> save st psi))
      else st)"

definition drop_report :: "gstate \<Rightarrow> sortable \<Rightarrow> gstate" where
  "drop_report st this =
     (if Sortable_active st \<noteq> None
      then save (if newIndex st = None \<or> newIndex st = Some (- 1)
                 then st \<lparr> newIndex := oldIndex st, newDraggableIndex := oldDraggableIndex st \<rparr>
                 else st) this
      else st)"

text \<open>
  \<open>_onDrop\<close> up to its last statement, the call of \<open>_nulling\<close>: the state in which
  the store hooks run and from which the session's final indices are read.
\<close>

definition onDrop_body :: "gstate \<Rightarrow> sortable \<Rightarrow> event option \<Rightarrow> gstate" where
  "onDrop_body st this evt =
     (let d = tree st;
          st1 = st \<lparr> newIndex := Some (index d (Sortable_clone st) (dragEl st) None),
                     newDraggableIndex :=
                       Some (index d (Sortable_clone st) (dragEl st) (draggable (options this))),
                     parentEl := (case dragEl st of None \<Rightarrow> None | Some x \<Rightarrow> parentNode d x) \<rparr>
      in if eventCanceled st1 then st1
         else
           (let st2 = st1 \<lparr> awaitingDragStarted := False, isCircumstantialInvert := False,
                             pastFirstInvertThresh := False,
                             timers := filter (\<lambda>t. snd t \<noteq> DragStartFn) (timers st1) \<rparr>
            in case evt of
                 None \<Rightarrow> st2
               | Some ev \<Rightarrow>
                   (let st4 = drop_remove_ghost_clone st2
                    in case dragEl st4 of
                         None \<Rightarrow> st4
                       | Some x \<Rightarrow> drop_report (drop_save_put st4) this)))"

definition onDrop :: "gstate \<Rightarrow> sortable \<Rightarrow> event option \<Rightarrow> gstate" where
  "onDrop st this evt = nulling (onDrop_body st this evt)"

text \<open>The function \<open>_prepareDragStart\<close> runs at once or after the start delay.\<close>

definition dragStartFn :: "gstate \<Rightarrow> sortable \<Rightarrow> gstate" where
  "dragStartFn st this = (if eventCanceled st then onDrop st this None else st)"

definition prepareDragStart ::
  "helpers \<Rightarrow> gstate \<Rightarrow> sortable \<Rightarrow> event \<Rightarrow> bool \<Rightarrow> nid option \<Rightarrow> gstate" where
  "prepareDragStart H st this evt touch target =
     (case target of
        None \<Rightarrow> st
      | Some t \<Rightarrow>
          if dragEl st = None \<and> parentNode (tree st) t = Some (el this)
          then
            (let st1 = st \<lparr> rootEl := Some (el this), dragEl := Some t,
                              parentEl := parentNode (tree st) t, nextEl := nextSibling (tree st) t,
                              lastDownEl := Some (Some t), activeGroup := Some (group (options this)),
                              Sortable_dragged := Some t,
                              tapEvt := Some (t, evt_clientX evt, evt_clientY evt) \<rparr>
             in if delay (options this) \<noteq> 0 \<and> (\<not> delayOnTouchOnly (options this) \<or> touch) \<and>
                   (\<not> nativeDraggable this \<or> \<not> h_Edge H)
                then (if eventCanceled st1 then onDrop st1 this None
                      else st1 \<lparr> timers := timers st1 @ [(delay (options this), DragStartFn)] \<rparr>)
                else dragStartFn st1 this)
          else st)"

text \<open>\<open>filter.split(',').some(...)\<close> over the trimmed criteria.\<close>

fun filter_some :: "dom \<Rightarrow> nid option \<Rightarrow> nid \<Rightarrow> string list \<Rightarrow> bool option" where
  "filter_some d originalTarget e [] = Some False"
| "filter_some d originalTarget e (c # cs) =
     (case closest d originalTarget (Some c) e False of
        None \<Rightarrow> None
      | Some (Some _) \<Rightarrow> Some True
      | Some None \<Rightarrow> filter_some d originalTarget e cs)"

text \<open>
  \<open>_onTapStart\<close> runs as the listener of the root element \<open>e\<close>: \<open>this\<close> is the
  element and \<open>Sortable.get(this)\<close> its instance, so \<open>this.nativeDraggable\<close> is
  undefined and the Safari test does not depend on it.
\<close>

definition onTapStart :: "helpers \<Rightarrow> gstate \<Rightarrow> nid \<Rightarrow> event \<Rightarrow> unit run" where
  "onTapStart H st e evt =
     (if \<not> evt_cancelable evt then Some (st, Inr ())
      else
        (case expando st e of
           None \<Rightarrow> Some (st, Inl TypeError)
         | Some this \<Rightarrow>
             (let opts = options this;
                  d = tree st;
                  touch = (evt_touch_target evt \<noteq> None \<or> evt_pointerType evt = Some ''touch'');
                  target = (case evt_touch_target evt of Some t \<Rightarrow> t | None \<Rightarrow> evt_target evt);
                  originalTarget = (case evt_shadow_target evt of Some x \<Rightarrow> Some x | None \<Rightarrow> target);
                  st1 = st \<lparr> savedInputChecked := h_saveInputCheckedState H d e (savedInputChecked st) \<rparr>
              in if dragEl st1 \<noteq> None then Some (st1, Inr ())
                 else if (evt_type evt \<in> {''mousedown'', ''pointerdown''} \<and> evt_button evt \<noteq> 0) \<or>
                         disabled opts
                 then Some (st1, Inr ())
                 else
                   (case originalTarget of
                      None \<Rightarrow> Some (st1, Inl TypeError)
                    | Some ot \<Rightarrow>
                        if isContentEditable d ot then Some (st1, Inr ())
                        else if h_Safari H \<and>
                                (case target of
                                   None \<Rightarrow> False
                                 | Some t \<Rightarrow> toUpperCase (tagName d t) = ''SELECT'')
                        then Some (st1, Inr ())
                        else
                          (case closest d target (draggable opts) e False of
                             None \<Rightarrow> None
                           | Some target' \<Rightarrow>
                               if (case target' of None \<Rightarrow> False | Some t \<Rightarrow> animated d t)
                               then Some (st1, Inr ())
                               else if lastDownEl st1 = Some target' then Some (st1, Inr ())
                               else
                                 (let st2 = st1 \<lparr> oldIndex := Some (index d (Sortable_clone st1) target' None),
                                                   oldDraggableIndex :=
                                                     Some (index d (Sortable_clone st1) target' (draggable opts)) \<rparr>
                                  in case (case filter_opt opts of
                                             None \<Rightarrow> Some False
                                           | Some FilterFunction \<Rightarrow> Some (h_filter H evt target')
                                           | Some (FilterSelectors sels) \<Rightarrow>
                                               filter_some d originalTarget e sels) of
                                       None \<Rightarrow> None
                                     | Some True \<Rightarrow> Some (st2, Inr ())
                                     | Some False \<Rightarrow>
                                         (case (if truthy_str (handle opts)
                                                then closest d originalTarget (handle opts) e False
                                                else Some (Some ot)) of
                                            None \<Rightarrow> None
                                          | Some None \<Rightarrow> Some (st2, Inr ())
                                          | Some (Some _) \<Rightarrow>
                                              Some (prepareDragStart H st2 this evt touch target', Inr ()))))))))"

section \<open>The dragover handler\<close>

datatype jsret = RUndefined | RBool bool

definition ok :: "gstate \<Rightarrow> 'a \<Rightarrow> 'a run" where
  "ok st v = Some (st, Inr v)"

definition throw :: "gstate \<Rightarrow> js_error \<Rightarrow> 'a run" where
  "throw st e = Some (st, Inl e)"

text \<open>Sequencing: a throw or an endless walk of the first part ends the run.\<close>

definition andThen :: "'a run \<Rightarrow> (gstate \<Rightarrow> 'a \<Rightarrow> 'b run) \<Rightarrow> 'b run" where
  "andThen m f =
     (case m of
        None \<Rightarrow> None
      | Some (st, Inl e) \<Rightarrow> Some (st, Inl e)
      | Some (st, Inr v) \<Rightarrow> f st v)"

definition upd_sortable :: "gstate \<Rightarrow> nid \<Rightarrow> (sortable \<Rightarrow> sortable) \<Rightarrow> gstate" where
  "upd_sortable st s f = st \<lparr> expando := (expando st)(s := map_option f (expando st s)) \<rparr>"

text \<open>\<open>getRect(el)\<close> without its optional arguments.\<close>

definition getRect :: "helpers \<Rightarrow> dom \<Rightarrow> nid \<Rightarrow> rect" where
  "getRect H d e =
     (if parentNode d e \<noteq> None \<and> e \<noteq> h_scrollingElement H then h_getBoundingClientRect H d e
      else h_windowRect H)"

text \<open>\<open>lastChild\<close>: from the last element child backwards, past the ghost, hidden
  elements and elements that do not match the selector.\<close>

definition lastChild :: "dom \<Rightarrow> nid option \<Rightarrow> nid \<Rightarrow> string option \<Rightarrow> nid option" where
  "lastChild d ghost e selector =
     (case dropWhile
             (\<lambda>l. Some l = ghost \<or> computed_display d l = ''none'' \<or>
                  (truthy_str selector \<and> \<not> matches d (Some l) selector))
             (rev (children d e)) of
        [] \<Rightarrow> None
      | l # _ \<Rightarrow> Some l)"

fun getChild_loop ::
  "dom \<Rightarrow> nid option \<Rightarrow> nid option \<Rightarrow> nid \<Rightarrow> options \<Rightarrow> bool \<Rightarrow> nid list \<Rightarrow> nat \<Rightarrow> nat \<Rightarrow> nid option option" where
  "getChild_loop d ghost dragged e opts includeDragEl [] currentChild childNum = Some None"
| "getChild_loop d ghost dragged e opts includeDragEl (c # cs) currentChild childNum =
     (if style_display d c \<noteq> ''none'' \<and> Some c \<noteq> ghost \<and> (includeDragEl \<or> Some c \<noteq> dragged)
      then (case closest d (Some c) (draggable opts) e False of
              None \<Rightarrow> None
            | Some None \<Rightarrow> getChild_loop d ghost dragged e opts includeDragEl cs currentChild childNum
            | Some (Some _) \<Rightarrow>
                if currentChild = childNum then Some (Some c)
                else getChild_loop d ghost dragged e opts includeDragEl cs (currentChild + 1) childNum)
      else getChild_loop d ghost dragged e opts includeDragEl cs currentChild childNum)"

definition getChild :: "gstate \<Rightarrow> nid \<Rightarrow> nat \<Rightarrow> options \<Rightarrow> bool \<Rightarrow> nid option option" where
  "getChild st e childNum opts includeDragEl =
     getChild_loop (tree st) (Sortable_ghost st) (Sortable_dragged st) e opts includeDragEl
       (children (tree st) e) 0 childNum"

text \<open>
  The walk that looks for the sibling beside the dragged item: from the item's index, step
  by \<open>- direction\<close> through the children of \<open>parentEl\<close> while the child there is
  hidden or is the ghost. An index outside the children gives \<open>undefined\<close>.
\<close>

function sibling_walk :: "dom \<Rightarrow> nid option \<Rightarrow> nid list \<Rightarrow> int \<Rightarrow> int \<Rightarrow> nid option" where
  "sibling_walk d ghost kids dir dragIndex =
     (if dir = 0 then None
      else
        (let i = dragIndex - dir
         in if 0 \<le> i \<and> i < int (length kids)
            then (if computed_display d (kids ! nat i) = ''none'' \<or> Some (kids ! nat i) = ghost
                  then sibling_walk d ghost kids dir i
                  else Some (kids ! nat i))
            else None))"
  by pat_completeness auto
termination
  by (relation "measure (\<lambda>(d, ghost, kids, dir, dragIndex).
        if dir > 0 then nat (dragIndex + 1) else nat (int (length kids) - dragIndex))")
     auto

text \<open>What the closures of \<open>_onDragOver\<close> capture when the handler starts.\<close>

record dragover_ctx =
  x_s :: nid
  x_opts :: options
  x_evt :: event
  x_isOwner :: bool
  x_active :: "nid option"
  x_from :: "nid option"

definition hideClone :: "gstate \<Rightarrow> nid \<Rightarrow> unit run" where
  "hideClone st a =
     (case expando st a of
        None \<Rightarrow> throw st TypeError
      | Some this \<Rightarrow>
          if cloneHidden st then ok st ()
          else if eventCanceled st then ok st ()
          else
            (let st1 = st \<lparr> tree := css_set_display (tree st) (cloneEl st) ''none'' \<rparr>
             in if removeCloneOnHide (options this)
                then (case cloneEl st1 of
                        None \<Rightarrow> throw st1 TypeError
                      | Some c \<Rightarrow> ok ((remove_from_parent st1 (Some c)) \<lparr> cloneHidden := True \<rparr>) ())
                else ok (st1 \<lparr> cloneHidden := True \<rparr>) ()))"

text \<open>\<open>rootEl?.insertBefore(node, ref)\<close>\<close>

definition insert_under_root :: "gstate \<Rightarrow> nid option \<Rightarrow> nid option \<Rightarrow> unit run" where
  "insert_under_root st node ref =
     (case rootEl st of None \<Rightarrow> ok st () | Some r \<Rightarrow> st_insertBefore st r node ref)"

definition animate :: "gstate \<Rightarrow> nid \<Rightarrow> unit run" where
  "animate st a =
     (case expando st a of
        None \<Rightarrow> throw st TypeError
      | Some i \<Rightarrow>
          if has_animation i then ok (st \<lparr> effects := effects st @ [Animate a] \<rparr>) ()
          else throw st NotImplemented)"

definition showClone :: "gstate \<Rightarrow> nid \<Rightarrow> nid \<Rightarrow> unit run" where
  "showClone st a put =
     (case expando st a of
        None \<Rightarrow> throw st TypeError
      | Some this \<Rightarrow>
          if lastPutMode_of st put \<noteq> Some PullClone then hideClone st a
          else if \<not> cloneHidden st then ok st ()
          else if eventCanceled st then ok st ()
          else
            (case dragEl st of
               None \<Rightarrow> throw st TypeError
             | Some dg \<Rightarrow>
                 andThen
                   (if parentNode (tree st) dg = rootEl st \<and> \<not> revertClone (group (options this))
                    then insert_under_root st (cloneEl st) (Some dg)
                    else if nextEl st \<noteq> None then insert_under_root st (cloneEl st) (nextEl st)
                    else insert_under_root st (cloneEl st) None)
                   (\<lambda>st1 _.
                      andThen (if revertClone (group (options this)) then animate st1 a else ok st1 ())
                        (\<lambda>st2 _.
                           ok (st2 \<lparr> tree := css_set_display (tree st2) (cloneEl st2) [],
                                     cloneHidden := False \<rparr>) ()))))"

definition capture :: "dragover_ctx \<Rightarrow> gstate \<Rightarrow> unit run" where
  "capture X st =
     andThen (captureAnimationState st (x_s X))
       (\<lambda>st1 _.
          if Some (x_s X) \<noteq> x_from X
          then (case x_from X of None \<Rightarrow> ok st1 () | Some f \<Rightarrow> captureAnimationState st1 f)
          else ok st1 ())"

definition isOutsideThisEl :: "gstate \<Rightarrow> nid \<Rightarrow> nid option \<Rightarrow> unit run" where
  "isOutsideThisEl st p target =
     (case contains (tree st) p target of
        None \<Rightarrow> None
      | Some c \<Rightarrow> ok (if \<not> c \<and> target \<noteq> Some p then st \<lparr> lastTarget := None \<rparr> else st) ())"

text \<open>
  \<open>_this.animateAll?.(callback)\<close>: the callback clears \<open>_ignoreWhileAnimating\<close>,
  at once or when the animation collaborator calls it later.
\<close>

definition animateAll_callback :: "helpers \<Rightarrow> gstate \<Rightarrow> nid \<Rightarrow> gstate" where
  "animateAll_callback H st s =
     (case expando st s of
        None \<Rightarrow> st
      | Some i \<Rightarrow>
          if has_animation i
          then (let st1 = st \<lparr> effects := effects st @ [AnimateAll s] \<rparr>
                in if h_animateAll_calls_back_now H
                   then upd_sortable st1 s (\<lambda>i. i \<lparr> ignoreWhileAnimating := None \<rparr>)
                   else st1)
          else st)"

text \<open>
  The first part of \<open>completed(true)\<close>: the clone is hidden or shown, \<open>putSortable\<close>
  is brought up to date, the target is ignored while it animates, and both lists animate.
\<close>

definition update_putSortable :: "nid \<Rightarrow> gstate \<Rightarrow> gstate" where
  "update_putSortable s st =
     (if putSortable st \<noteq> Some s \<and> Some s \<noteq> Sortable_active st then st \<lparr> putSortable := Some s \<rparr>
      else if Some s = Sortable_active st \<and> putSortable st \<noteq> None then st \<lparr> putSortable := None \<rparr>
      else st)"

definition mark_ignore :: "dragover_ctx \<Rightarrow> nid option \<Rightarrow> gstate \<Rightarrow> gstate" where
  "mark_ignore X target st =
     (if x_from X = Some (x_s X)
      then upd_sortable st (x_s X) (\<lambda>i. i \<lparr> ignoreWhileAnimating := target \<rparr>)
      else st)"

definition completed_animation :: "helpers \<Rightarrow> dragover_ctx \<Rightarrow> gstate \<Rightarrow> unit run" where
  "completed_animation H X st =
     (let st4 = animateAll_callback H st (x_s X)
      in if Some (x_s X) \<noteq> x_from X
         then (case x_from X of
                 None \<Rightarrow> throw st4 TypeError
               | Some f \<Rightarrow>
                   ok (upd_sortable (animateAll st4 f) f (\<lambda>i. i \<lparr> ignoreWhileAnimating := None \<rparr>)) ())
         else ok st4 ())"

definition completed_insertion :: "helpers \<Rightarrow> dragover_ctx \<Rightarrow> nid option \<Rightarrow> gstate \<Rightarrow> unit run" where
  "completed_insertion H X target st =
     andThen
       (case x_active X of
          None \<Rightarrow> ok st ()
        | Some a \<Rightarrow> if x_isOwner X then hideClone st a else showClone st a (x_s X))
       (\<lambda>st1 _. completed_animation H X (mark_ignore X target (update_putSortable (x_s X) st1)))"

text \<open>
  The rest of \<open>completed\<close>: \<open>lastTarget\<close> is forgotten when the target is the dragged
  item or the root; unless the event bubbles or is an emulated one, the list that holds
  the dragged item checks whether the pointer left it, and, when nothing was inserted, the
  event is handed to the empty-insert detection. The handler then returns true.
\<close>

definition forget_lastTarget :: "dragover_ctx \<Rightarrow> nid option \<Rightarrow> gstate \<Rightarrow> js_error + gstate" where
  "forget_lastTarget X target st =
     (if target = dragEl st \<and> dragEl st = None then Inl TypeError
      else if (target = dragEl st \<and> (case dragEl st of None \<Rightarrow> False | Some dg \<Rightarrow> \<not> animated (tree st) dg)) \<or>
              (target = Some (x_s X) \<and> \<not> animated (tree st) (x_s X))
      then Inr (st \<lparr> lastTarget := None \<rparr>)
      else Inr st)"

text \<open>\<open>dragEl?.parentNode?.[expando]\<close>\<close>

definition holder :: "gstate \<Rightarrow> nid option" where
  "holder st =
     (case dragEl st of
        None \<Rightarrow> None
      | Some dg \<Rightarrow>
          (case parentNode (tree st) dg of
             None \<Rightarrow> None
           | Some p \<Rightarrow> (case expando st p of None \<Rightarrow> None | Some _ \<Rightarrow> Some p)))"

definition completed_outside :: "dragover_ctx \<Rightarrow> nid option \<Rightarrow> bool \<Rightarrow> gstate \<Rightarrow> jsret run" where
  "completed_outside X target insertion st =
     (if \<not> dragoverBubble (x_opts X) \<and> evt_rootEl (x_evt X) = None \<and>
         target \<noteq> Some (document (tree st))
      then (case holder st of
              None \<Rightarrow> throw st TypeError
            | Some p \<Rightarrow>
                andThen (isOutsideThisEl st p (evt_target (x_evt X)))
                  (\<lambda>st2 _.
                     ok (if \<not> insertion
                         then st2 \<lparr> effects := effects st2 @ [NearestEmptyInsertDetect] \<rparr>
                         else st2) (RBool True)))
      else ok st (RBool True))"

definition completed_rest :: "dragover_ctx \<Rightarrow> nid option \<Rightarrow> bool \<Rightarrow> gstate \<Rightarrow> jsret run" where
  "completed_rest X target insertion st =
     (case forget_lastTarget X target st of
        Inl e \<Rightarrow> throw st e
      | Inr st1 \<Rightarrow> completed_outside X target insertion st1)"

definition completed :: "helpers \<Rightarrow> dragover_ctx \<Rightarrow> nid option \<Rightarrow> bool \<Rightarrow> gstate \<Rightarrow> jsret run" where
  "completed H X target insertion st =
     andThen (if insertion then completed_insertion H X target st else ok st ())
       (\<lambda>st1 _. completed_rest X target insertion st1)"

text \<open>\<open>changed()\<close>\<close>

definition changed :: "dragover_ctx \<Rightarrow> gstate \<Rightarrow> gstate" where
  "changed X st =
     st \<lparr> newIndex := Some (index (tree st) (Sortable_clone st) (dragEl st) None),
          newDraggableIndex :=
            Some (index (tree st) (Sortable_clone st) (dragEl st) (draggable (x_opts X))) \<rparr>"

text \<open>The call of the move hook, recorded with its answer.\<close>

definition call_onMove ::
  "helpers \<Rightarrow> dragover_ctx \<Rightarrow> nid option \<Rightarrow> bool \<Rightarrow> gstate \<Rightarrow> gstate \<times> move_result" where
  "call_onMove H X target willInsertAfter st =
     (let r = h_onMove H (tree st) (rootEl st) (x_s X) (dragEl st) target (x_evt X) willInsertAfter
      in (st \<lparr> effects := effects st @ [OnMoveCall (x_s X) target willInsertAfter r] \<rparr>, r))"

text \<open>
  A branch of the handler either returns (through \<open>completed\<close>) or falls through to the
  end of the handler, with the target as the branch left it.
\<close>

datatype branch_out = Returned jsret | FellThrough "nid option"

definition returning :: "jsret run \<Rightarrow> branch_out run" where
  "returning m = andThen m (\<lambda>st r. ok st (Returned r))"

text \<open>Reverting the item into its original list (sorting disabled there).\<close>

definition dragover_revert :: "helpers \<Rightarrow> dragover_ctx \<Rightarrow> nid option \<Rightarrow> gstate \<Rightarrow> jsret run" where
  "dragover_revert H X target st =
     andThen (capture X (st \<lparr> parentEl := rootEl st \<rparr>))
       (\<lambda>st2 _.
          andThen (hideClone st2 (x_s X))
            (\<lambda>st3 _.
               andThen (if \<not> eventCanceled st3 then insert_under_root st3 (dragEl st3) (nextEl st3)
                        else ok st3 ())
                 (\<lambda>st4 _. completed H X target True st4)))"

text \<open>Insert at the end of the list.\<close>

definition dragover_end ::
  "helpers \<Rightarrow> dragover_ctx \<Rightarrow> nid option \<Rightarrow> nid option \<Rightarrow> gstate \<Rightarrow> branch_out run" where
  "dragover_end H X target elLastChild st =
     (if elLastChild = dragEl st then returning (completed H X target False st)
      else
        (let target1 = (if elLastChild \<noteq> None \<and> Some (x_s X) = evt_target (x_evt X)
                        then elLastChild else target);
             mv = call_onMove H X target1 (target1 \<noteq> None) st
         in if snd mv \<noteq> MoveFalse
            then
              andThen (capture X (fst mv))
                (\<lambda>st2 _.
                   andThen (st_insertBefore st2 (x_s X) (dragEl st2)
                              (case elLastChild of None \<Rightarrow> None | Some l \<Rightarrow> nextSibling (tree st2) l))
                     (\<lambda>st3 _.
                        returning (completed H X target1 True
                                     (changed X (st3 \<lparr> parentEl := Some (x_s X) \<rparr>)))))
            else ok (fst mv) (FellThrough target1)))"

text \<open>Insert at the start of the list.\<close>

definition dragover_start :: "helpers \<Rightarrow> dragover_ctx \<Rightarrow> nid option \<Rightarrow> gstate \<Rightarrow> branch_out run" where
  "dragover_start H X target st =
     (case getChild st (x_s X) 0 (x_opts X) True of
        None \<Rightarrow> None
      | Some firstChild \<Rightarrow>
          if firstChild = dragEl st then returning (completed H X target False st)
          else
            (case firstChild of
               None \<Rightarrow> throw st TypeError
             | Some fc \<Rightarrow>
                 (let mv = call_onMove H X (Some fc) False st
                  in if snd mv \<noteq> MoveFalse
                     then
                       andThen (capture X (fst mv))
                         (\<lambda>st2 _.
                            andThen (st_insertBefore st2 (x_s X) (dragEl st2) (Some fc))
                              (\<lambda>st3 _.
                                 returning (completed H X (Some fc) True
                                              (changed X (st3 \<lparr> parentEl := Some (x_s X) \<rparr>)))))
                     else ok (fst mv) (FellThrough (Some fc)))))"

text \<open>
  The swap over a sibling. \<open>swap_prepare\<close> is the state after the swap state has been
  reset for a new target, \<open>swap_direction\<close> the answer of \<open>_getSwapDirection\<close> to the
  arguments the handler passes, \<open>swap_sibling\<close> the sibling found beside the dragged
  item.
\<close>

definition side1 :: "bool \<Rightarrow> rect \<Rightarrow> real" where
  "side1 vertical r = (if vertical then r_top r else r_left r)"

definition differentRowCol :: "helpers \<Rightarrow> gstate \<Rightarrow> nid \<Rightarrow> nid \<Rightarrow> bool \<Rightarrow> bool" where
  "differentRowCol H st dg t vertical =
     (let d = tree st
      in \<not> h_dragElInRowColumn H
             (if animated d dg then or_default (toRect d dg) (getRect H d dg) else getRect H d dg)
             (if animated d t then or_default (toRect d t) (getRect H d t) else getRect H d t)
             vertical)"

definition swap_prepare :: "helpers \<Rightarrow> dragover_ctx \<Rightarrow> nid \<Rightarrow> nid \<Rightarrow> bool \<Rightarrow> gstate \<Rightarrow> gstate" where
  "swap_prepare H X dg t vertical st =
     (if lastTarget st \<noteq> Some t
      then st \<lparr> pastFirstInvertThresh := False,
                isCircumstantialInvert :=
                  ((\<not> differentRowCol H st dg t vertical \<and> invertSwap (x_opts X)) \<or>
                   parentNode (tree st) dg \<noteq> Some (x_s X)) \<rparr>
      else st)"

definition swap_arguments :: "helpers \<Rightarrow> dragover_ctx \<Rightarrow> nid \<Rightarrow> nid \<Rightarrow> bool \<Rightarrow> gstate \<Rightarrow> swap_args" where
  "swap_arguments H X dg t vertical st =
     (let st1 = swap_prepare H X dg t vertical st
      in \<lparr> sa_evt = x_evt X, sa_target = t, sa_targetRect = getRect H (tree st) t,
           sa_vertical = vertical,
           sa_swapThreshold = (if differentRowCol H st dg t vertical then 1 else swapThreshold (x_opts X)),
           sa_invertedSwapThreshold =
             (case invertedSwapThreshold (x_opts X) of
                None \<Rightarrow> swapThreshold (x_opts X)
              | Some v \<Rightarrow> v),
           sa_invertSwap = isCircumstantialInvert st1,
           sa_isLastTarget = (lastTarget st1 = Some t),
           sa_dragEl = Some dg,
           sa_targetMoveDistance = targetMoveDistance st1,
           sa_pastFirstInvertThresh = pastFirstInvertThresh st1,
           sa_lastDirection = lastDirection st1 \<rparr>)"

definition swap_direction :: "helpers \<Rightarrow> dragover_ctx \<Rightarrow> nid \<Rightarrow> nid \<Rightarrow> bool \<Rightarrow> gstate \<Rightarrow> int" where
  "swap_direction H X dg t vertical st = h_getSwapDirection H (swap_arguments H X dg t vertical st)"

definition swap_sibling :: "gstate \<Rightarrow> nid \<Rightarrow> int \<Rightarrow> nid option" where
  "swap_sibling st dg dir =
     sibling_walk (tree st) (ghostEl st)
       (case parentEl st of None \<Rightarrow> [] | Some pe \<Rightarrow> children (tree st) pe)
       dir (index (tree st) (Sortable_clone st) (Some dg) None)"

definition swap_commit ::
  "helpers \<Rightarrow> dragover_ctx \<Rightarrow> nid \<Rightarrow> nid \<Rightarrow> bool \<Rightarrow> real option \<Rightarrow> bool \<Rightarrow> nid option \<Rightarrow> gstate \<Rightarrow> branch_out run" where
  "swap_commit H X dg t vertical targetBeforeFirstSwap after nextSib st =
     andThen (capture X (st \<lparr> silent := True, timers := timers st @ [(30, ClearSilent)] \<rparr>))
       (\<lambda>st5 _.
          andThen (if after \<and> nextSib = None then st_insertBefore st5 (x_s X) (Some dg) None
                   else (case parentNode (tree st5) t of
                           None \<Rightarrow> ok st5 ()
                         | Some tp \<Rightarrow> st_insertBefore st5 tp (Some dg) (if after then nextSib else Some t)))
            (\<lambda>st6 _.
               (let st7 = st6 \<lparr> parentEl := parentNode (tree st6) dg \<rparr>;
                    st8 = (case targetBeforeFirstSwap of
                             None \<Rightarrow> st7
                           | Some b \<Rightarrow>
                               if \<not> isCircumstantialInvert st7
                               then st7 \<lparr> targetMoveDistance :=
                                           \<bar>b - side1 vertical (getRect H (tree st7) t)\<bar> \<rparr>
                               else st7)
                in returning (completed H X (Some t) True (changed X st8)))))"

definition dragover_swap :: "helpers \<Rightarrow> dragover_ctx \<Rightarrow> nid \<Rightarrow> nid \<Rightarrow> bool \<Rightarrow> gstate \<Rightarrow> branch_out run" where
  "dragover_swap H X dg t vertical st =
     (let targetBeforeFirstSwap =
            (if lastTarget st \<noteq> Some t then Some (side1 vertical (getRect H (tree st) t)) else None);
          st1 = swap_prepare H X dg t vertical st;
          dir = swap_direction H X dg t vertical st
      in if dir = 0 \<or> swap_sibling st1 dg dir = Some t
         then returning (completed H X (Some t) False st1)
         else
           (let nextSib = nextElementSibling (tree st1) t;
                mv = call_onMove H X (Some t) (dir = 1)
                       (st1 \<lparr> lastTarget := Some t, lastDirection := Some dir \<rparr>)
            in if snd mv \<noteq> MoveFalse
               then swap_commit H X dg t vertical targetBeforeFirstSwap
                      (if snd mv = MoveNumber 1 \<or> snd mv = MoveNumber (- 1)
                       then snd mv = MoveNumber 1 else dir = 1)
                      nextSib (fst mv)
               else ok (fst mv) (FellThrough (Some t))))"

text \<open>
  The condition under which the handler deals with the event at all. It may record the
  pull mode on the instance; its second component is \<open>revert\<close>.
\<close>

definition dragover_guard :: "helpers \<Rightarrow> dragover_ctx \<Rightarrow> gstate \<Rightarrow> gstate \<times> bool \<times> bool" where
  "dragover_guard H X st =
     (case x_active X of
        None \<Rightarrow> (st, False, False)
      | Some a \<Rightarrow>
          if disabled (x_opts X) then (st, False, False)
          else if x_isOwner X
          then (if sort_opt (x_opts X) then (st, True, False)
                else (st, parentEl st \<noteq> rootEl st, parentEl st \<noteq> rootEl st))
          else if putSortable st = Some (x_s X) then (st, True, False)
          else
            (let pull = (case activeGroup st of
                           None \<Rightarrow> None
                         | Some g \<Rightarrow> Some (h_checkPull H g (x_s X) a (dragEl st) (x_evt X)))
             in (upd_sortable st (x_s X) (\<lambda>i. i \<lparr> lastPutMode := pull \<rparr>),
                 (pull \<noteq> None \<and> pull \<noteq> Some PullFalse) \<and>
                   h_checkPut H (group (x_opts X)) (x_s X) a (dragEl st) (x_evt X),
                 False)))"

definition getDirection :: "helpers \<Rightarrow> gstate \<Rightarrow> options \<Rightarrow> event \<Rightarrow> nid option \<Rightarrow> string" where
  "getDirection H st opts evt target =
     (case direction opts of
        DirectionFunction \<Rightarrow> h_direction H (tree st) evt target (dragEl st)
      | DirectionString v \<Rightarrow> v)"

text \<open>The three placement branches, tried in the order of the source.\<close>

definition dragover_branches ::
  "helpers \<Rightarrow> dragover_ctx \<Rightarrow> nid \<Rightarrow> nid option \<Rightarrow> bool \<Rightarrow> gstate \<Rightarrow> branch_out run" where
  "dragover_branches H X dg target vertical st =
     (let d = tree st;
          elLastChild = lastChild d (Sortable_ghost st) (x_s X) (draggable (x_opts X))
      in if (case elLastChild of
               None \<Rightarrow> True
             | Some l \<Rightarrow> h_ghostIsLast H d (x_evt X) vertical (x_s X) \<and> \<not> animated d l)
         then dragover_end H X target elLastChild st
         else if h_ghostIsFirst H d (x_evt X) vertical (x_s X) then dragover_start H X target st
         else (case target of
                 None \<Rightarrow> ok st (FellThrough target)
               | Some t \<Rightarrow>
                   if parentNode d t = Some (x_s X) then dragover_swap H X dg t vertical st
                   else ok st (FellThrough target)))"

text \<open>The end of the handler, reached when no branch returned.\<close>

definition dragover_tail :: "helpers \<Rightarrow> dragover_ctx \<Rightarrow> nid option \<Rightarrow> gstate \<Rightarrow> jsret run" where
  "dragover_tail H X target st =
     (case contains (tree st) (x_s X) (dragEl st) of
        None \<Rightarrow> None
      | Some True \<Rightarrow> completed H X target False st
      | Some False \<Rightarrow> ok st (RBool False))"

definition dragover_ctx_of :: "gstate \<Rightarrow> nid \<Rightarrow> sortable \<Rightarrow> event \<Rightarrow> dragover_ctx" where
  "dragover_ctx_of st s this evt =
     \<lparr> x_s = s, x_opts = options this, x_evt = evt,
       x_isOwner = (map_option group_ref (activeGroup st) = Some (group_ref (group (options this)))),
       x_active = Sortable_active st,
       x_from = (case putSortable st of Some p \<Rightarrow> Some p | None \<Rightarrow> Sortable_active st) \<rparr>"

text \<open>The handler once its guard condition holds: revert, or one of the branches and
  the end of the handler.\<close>

definition dragover_place ::
  "helpers \<Rightarrow> dragover_ctx \<Rightarrow> nid option \<Rightarrow> bool \<Rightarrow> gstate \<Rightarrow> jsret run" where
  "dragover_place H X target revert st =
     (case dragEl st of
        None \<Rightarrow> throw st TypeError
      | Some dg \<Rightarrow>
          if eventCanceled st then ok st (RBool False)
          else if revert then dragover_revert H X target st
          else
            andThen
              (dragover_branches H X dg target
                 (getDirection H st (x_opts X) (x_evt X) target = ''vertical'') st)
              (\<lambda>st3 out.
                 case out of
                   Returned v \<Rightarrow> ok st3 v
                 | FellThrough target' \<Rightarrow> dragover_tail H X target' st3))"

text \<open>
  \<open>_onDragOver\<close> of the instance on element \<open>s\<close>. The handler reads its instance
  first, then looks at the guard \<open>_silent\<close>.
\<close>

definition onDragOver :: "helpers \<Rightarrow> gstate \<Rightarrow> nid \<Rightarrow> event \<Rightarrow> jsret run" where
  "onDragOver H st s evt =
     (case expando st s of
        None \<Rightarrow> throw st TypeError
      | Some this \<Rightarrow>
          (let X = dragover_ctx_of st s this evt
           in if silent st then ok st RUndefined
              else
                (case closest (tree st) (evt_target evt) (draggable (options this)) s True of
                   None \<Rightarrow> None
                 | Some target \<Rightarrow>
                     if eventCanceled st then ok st (RBool False)
                     else
                       (case (case dragEl st of
                                None \<Rightarrow> Some False
                              | Some dg \<Rightarrow> contains (tree st) dg (evt_target evt)) of
                          None \<Rightarrow> None
                        | Some inDrag \<Rightarrow>
                            if inDrag \<or>
                               (case target of
                                  None \<Rightarrow> False
                                | Some t \<Rightarrow> animated (tree st) t \<and> animatingX (tree st) t \<and>
                                            animatingY (tree st) t) \<or>
                               ignoreWhileAnimating this = target
                            then completed H X target False st
                            else
                              (let g = dragover_guard H X (st \<lparr> ignoreNextClick := False \<rparr>)
                               in if \<not> fst (snd g) then ok (fst g) (RBool False)
                                  else dragover_place H X target (snd (snd g)) (fst g))))))"

text \<open>The callbacks of the timers.\<close>

definition fire_timer :: "timer_action \<Rightarrow> gstate \<Rightarrow> gstate" where
  "fire_timer a st =
     (case a of
        ClearSilent \<Rightarrow> st \<lparr> silent := False \<rparr>
      | DragStartFn \<Rightarrow>
          (case rootEl st of
             None \<Rightarrow> st
           | Some r \<Rightarrow> (case expando st r of None \<Rightarrow> st | Some this \<Rightarrow> dragStartFn st this)))"

section \<open>Relations between the states of a run\<close>

text \<open>The effects a run has added to the record, and whether one of them is a move hook
  call that answered false.\<close>

definition new_effects :: "gstate \<Rightarrow> gstate \<Rightarrow> effect list" where
  "new_effects st st' = drop (length (effects st)) (effects st')"

fun is_veto :: "effect \<Rightarrow> bool" where
  "is_veto (OnMoveCall _ _ _ MoveFalse) = True"
| "is_veto _ = False"

definition grows :: "gstate \<Rightarrow> gstate \<Rightarrow> bool" where
  "grows st st' = (take (length (effects st)) (effects st') = effects st)"

definition vetofree :: "gstate \<Rightarrow> gstate \<Rightarrow> bool" where
  "vetofree st st' = (grows st st' \<and> \<not> list_ex is_veto (new_effects st st'))"

text \<open>
  \<open>struct P\<close>: the session keeps its dragged item, clone, root and active list; a
  well-formed tree stays well-formed; and every node but the clone keeps its parent,
  except that the dragged item may have moved under a node of \<open>P\<close>.
\<close>

definition struct :: "nid set \<Rightarrow> gstate \<Rightarrow> gstate \<Rightarrow> bool" where
  "struct P st st' =
     (cloneEl st' = cloneEl st \<and> dragEl st' = dragEl st \<and> rootEl st' = rootEl st \<and>
      nextEl st' = nextEl st \<and> Sortable_active st' = Sortable_active st \<and>
      (if wf_dom (tree st) then wf_dom (tree st') else True) \<and>
      (\<forall>x. if Some x = cloneEl st then True
           else parentNode (tree st') x = parentNode (tree st) x \<or>
                (Some x = dragEl st \<and> parentNode (tree st') x \<in> Some ` P)))"

definition low :: "nid set \<Rightarrow> gstate \<Rightarrow> gstate \<Rightarrow> bool" where
  "low P st st' =
     (struct P st st' \<and> vetofree st st' \<and> silent st' = silent st \<and> timers st' = timers st)"

text \<open>\<open>veto_safe\<close>: a veto is recorded only if the tree and the session are as before.\<close>

definition veto_safe :: "gstate \<Rightarrow> gstate \<Rightarrow> bool" where
  "veto_safe st st' =
     (grows st st' \<and>
      (vetofree st st' \<or>
       (tree st' = tree st \<and> dragEl st' = dragEl st \<and> Sortable_active st' = Sortable_active st)))"

text \<open>\<open>quiet\<close>: nothing of the tree and of the session's identity changes.\<close>

definition quiet :: "gstate \<Rightarrow> gstate \<Rightarrow> bool" where
  "quiet st st' =
     (tree st' = tree st \<and> dragEl st' = dragEl st \<and> cloneEl st' = cloneEl st \<and>
      rootEl st' = rootEl st \<and> nextEl st' = nextEl st \<and>
      Sortable_active st' = Sortable_active st \<and> silent st' = silent st \<and>
      timers st' = timers st \<and> vetofree st st')"

text \<open>\<open>br P\<close>: what a whole run of the dragover handler keeps.\<close>

definition br :: "nid set \<Rightarrow> gstate \<Rightarrow> gstate \<Rightarrow> bool" where
  "br P st st' = (struct P st st' \<and> veto_safe st st')"

text \<open>The re-entrancy guard is set and the timer that clears it after 30 ms is pending.\<close>

definition guarded :: "gstate \<Rightarrow> bool" where
  "guarded st = (silent st \<and> (30, ClearSilent) \<in> set (timers st))"

text \<open>The tree operations among the effects, and those that move a given node.\<close>

fun is_tree_op :: "effect \<Rightarrow> bool" where
  "is_tree_op (DomRemoveChild _ _) = True"
| "is_tree_op (DomInsertBefore _ _ _) = True"
| "is_tree_op _ = False"

fun moves_item :: "nid \<Rightarrow> effect \<Rightarrow> bool" where
  "moves_item n (DomRemoveChild _ c) = (c = n)"
| "moves_item n (DomInsertBefore _ c _) = (c = n)"
| "moves_item n _ = False"

text \<open>
  \<open>calm s\<close>: the tree, the dragged item, the clone, the root and the pull mode recorded
  on the instance of \<open>s\<close> are as before, and no tree operation has been recorded.
\<close>

definition calm :: "nid \<Rightarrow> gstate \<Rightarrow> gstate \<Rightarrow> bool" where
  "calm s st st' =
     (tree st' = tree st \<and> cloneEl st' = cloneEl st \<and> dragEl st' = dragEl st \<and>
      rootEl st' = rootEl st \<and> lastPutMode_of st' s = lastPutMode_of st s \<and>
      (\<exists>es. effects st' = effects st @ es \<and> \<not> list_ex is_tree_op es))"

text \<open>
  \<open>isOwner = activeGroup === group\<close> for the handler of the list \<open>s\<close>, and the case
  in which \<open>completed\<close> shows the clone: the list is not the owner's and the pull mode
  recorded on it is \<open>clone\<close>.
\<close>

definition isOwner :: "gstate \<Rightarrow> nid \<Rightarrow> bool" where
  "isOwner st s =
     (case expando st s of
        None \<Rightarrow> False
      | Some this \<Rightarrow> map_option group_ref (activeGroup st) = Some (group_ref (group (options this))))"

definition clone_pull :: "dragover_ctx \<Rightarrow> gstate \<Rightarrow> bool" where
  "clone_pull X st = (\<not> x_isOwner X \<and> lastPutMode_of st (x_s X) = Some PullClone)"

text \<open>
  \<open>keeps X\<close>: the dragged item, the clone, the root and the pull mode are as before, and
  the clone has its parent of before, or else has come under the root when clones are
  pulled, and has lost its parent when they are not.
\<close>

definition keeps :: "dragover_ctx \<Rightarrow> gstate \<Rightarrow> gstate \<Rightarrow> bool" where
  "keeps X st st' =
     (cloneEl st' = cloneEl st \<and> dragEl st' = dragEl st \<and> rootEl st' = rootEl st \<and>
      lastPutMode_of st' (x_s X) = lastPutMode_of st (x_s X) \<and>
      (\<forall>c. cloneEl st = Some c \<longrightarrow> Some c \<noteq> dragEl st \<longrightarrow>
           parentNode (tree st') c = parentNode (tree st) c \<or>
           (if clone_pull X st then rootEl st \<noteq> None \<and> parentNode (tree st') c = rootEl st
            else parentNode (tree st') c = None)))"

text \<open>
  \<open>moved_upto n\<close>: the effects have grown, and among the new ones at most \<open>n\<close> move the
  dragged item (when the clone is a node of its own).
\<close>

definition moved_upto :: "nat \<Rightarrow> gstate \<Rightarrow> gstate \<Rightarrow> bool" where
  "moved_upto n st st' =
     (cloneEl st' = cloneEl st \<and> dragEl st' = dragEl st \<and>
      (\<exists>es. effects st' = effects st @ es \<and>
            (\<forall>dg. dragEl st = Some dg \<longrightarrow> cloneEl st \<noteq> Some dg \<longrightarrow>
                  length (filter (moves_item dg) es) \<le> n)))"

text \<open>Every end of a run satisfies a predicate.\<close>

definition ends :: "'a run \<Rightarrow> (gstate \<Rightarrow> bool) \<Rightarrow> bool" where
  "ends m Q = (\<forall>st' r. m = Some (st', r) \<longrightarrow> Q st')"

text \<open>The items of a set of containers, with their multiplicities.\<close>

definition all_items :: "nid set \<Rightarrow> dom \<Rightarrow> nid multiset" where
  "all_items C d = (\<Sum>c\<in>C. mset (childNodes d c))"

subsection \<open>A sample tree\<close>

text \<open>
  A tree whose nodes are all visible LI elements matching every selector; the examples
  below fill in its child lists and parent pointers.
\<close>

definition blank_dom :: dom where
  "blank_dom =
     \<lparr> childNodes = (\<lambda>_. []), parentNode = (\<lambda>_. None), host = (\<lambda>_. None), document = 0,
       nodeType = (\<lambda>_. 1), nodeName = (\<lambda>_. ''LI''), native_matches = (\<lambda>_ _. True),
       computed_display = (\<lambda>_. ''block''), style_display = (\<lambda>_. []),
       sheet_display = (\<lambda>_. ''block''), getAttribute = (\<lambda>_ _. None),
       animated = (\<lambda>_. False), animatingX = (\<lambda>_. False), animatingY = (\<lambda>_. False),
       isContentEditable = (\<lambda>_. False), tagName = (\<lambda>_. ''LI''),
       toRect = (\<lambda>_. None) \<rparr>"

text \<open>A list 10 with the items 1, 2, 3, 4 (identifiers p, t, q, r), of which 2 is a
  template node.\<close>

definition list_dom :: dom where
  "list_dom =
     blank_dom
       \<lparr> childNodes := (\<lambda>_. [])(10 := [1, 2, 3, 4]),
         parentNode := (\<lambda>_. None)(1 := Some 10, 2 := Some 10, 3 := Some 10, 4 := Some 10),
         nodeName := (\<lambda>_. ''LI'')(2 := ''template''),
         getAttribute := (\<lambda>n _. [1 \<mapsto> ''p'', 2 \<mapsto> ''t'', 3 \<mapsto> ''q'', 4 \<mapsto> ''r''] n) \<rparr>"

text \<open>The module state when the script has loaded, over a given tree.\<close>

definition initial_state :: "dom \<Rightarrow> gstate" where
  "initial_state d =
     \<lparr> tree = d, dragEl = None, parentEl = None, ghostEl = None, rootEl = None, nextEl = None,
       lastDownEl = None, cloneEl = None, cloneHidden = False, oldIndex = None, newIndex = None,
       oldDraggableIndex = None, newDraggableIndex = None, activeGroup = None,
       putSortable = None, awaitingDragStarted = False, ignoreNextClick = False,
       sortables = [], tapEvt = None, moved = False, lastTarget = None, lastDirection = None,
       pastFirstInvertThresh = False, isCircumstantialInvert = False, targetMoveDistance = 0,
       silent = False, savedInputChecked = [], Sortable_active = None, Sortable_ghost = None,
       Sortable_clone = None, Sortable_dragged = None, eventCanceled = False,
       expando = (\<lambda>_. None), timers = [], effects = [] \<rparr>"

definition zero_rect :: rect where
  "zero_rect = \<lparr> r_top = 0, r_left = 0, r_bottom = 0, r_right = 0, r_width = 0, r_height = 0 \<rparr>"

text \<open>Collaborators for the examples: a pointer that is neither past the last item nor
  before the first, a swap direction of 1, a move hook without an opinion, groups that
  allow every pull and put.\<close>

definition sample_helpers :: helpers where
  "sample_helpers =
     \<lparr> h_getBoundingClientRect = (\<lambda>_ _. zero_rect), h_getSwapDirection = (\<lambda>_. 1),
       h_ghostIsLast = (\<lambda>_ _ _ _. False), h_ghostIsFirst = (\<lambda>_ _ _ _. False),
       h_dragElInRowColumn = (\<lambda>_ _ _. True), h_direction = (\<lambda>_ _ _ _. ''vertical''),
       h_generateId = (\<lambda>_ n. replicate n (CHR ''i'')),
       h_saveInputCheckedState = (\<lambda>_ _ xs. xs),
       h_onMove = (\<lambda>_ _ _ _ _ _ _. MoveOther),
       h_checkPull = (\<lambda>_ _ _ _ _. PullTrue), h_checkPut = (\<lambda>_ _ _ _ _. True),
       h_filter = (\<lambda>_ _. False), h_supportDraggable = True, h_Safari = False,
       h_Edge = False, h_animation_manager = True, h_animateAll_calls_back_now = True,
       h_scrollingElement = 0, h_windowRect = zero_rect \<rparr>"

definition no_options :: user_options where
  "no_options =
     \<lparr> u_group = None, u_sort = None, u_disabled = None, u_store = None, u_handle = None,
       u_draggable = None, u_swapThreshold = None, u_invertSwap = None,
       u_invertedSwapThreshold = None, u_removeCloneOnHide = None, u_direction = None,
       u_filter = None, u_dragoverBubble = None, u_dataIdAttr = None, u_delay = None,
       u_delayOnTouchOnly = None, u_forceFallback = None \<rparr>"

definition sample_prepareGroup :: "group option \<Rightarrow> group" where
  "sample_prepareGroup g = or_default g \<lparr> group_ref = 0, revertClone = False \<rparr>"

text \<open>An instance with the default options, and the state in which one is registered
  on the list 10.\<close>

definition sample_sortable :: "nid \<Rightarrow> sortable" where
  "sample_sortable r =
     \<lparr> el = r, options = merge_defaults blank_dom r no_options (sample_prepareGroup None),
       ignoreWhileAnimating = None, nativeDraggable = True, lastPutMode = None,
       has_animation = True \<rparr>"

definition list_state :: gstate where
  "list_state = (initial_state list_dom) \<lparr> expando := [10 \<mapsto> sample_sortable 10], sortables := [10] \<rparr>"

text \<open>A cancelable primary-button pointer-down on item 3, and a session that drags
  item 1 of the list 10, with its clone 99 made and hidden.\<close>

definition sample_event :: event where
  "sample_event =
     \<lparr> evt_target = Some 3, evt_cancelable = True, evt_type = ''pointerdown'', evt_button = 0,
       evt_touch_target = None, evt_pointerType = None, evt_shadow_target = None,
       evt_clientX = 0, evt_clientY = 0, evt_rootEl = None, evt_is_document = False \<rparr>"

definition dragging_state :: gstate where
  "dragging_state =
     list_state \<lparr> dragEl := Some 1, parentEl := Some 10, rootEl := Some 10, nextEl := Some 2,
                  lastDownEl := Some (Some 1), oldIndex := Some 0, oldDraggableIndex := Some 0,
                  activeGroup := Some (group (options (sample_sortable 10))),
                  Sortable_dragged := Some 1, Sortable_active := Some 10, moved := True,
                  cloneEl := Some 99, cloneHidden := True, Sortable_clone := Some 99 \<rparr>"

text \<open>The same session after the host has taken the dragged item out of the tree.\<close>

definition detached_state :: gstate where
  "detached_state = dragging_state \<lparr> tree := detach list_dom 1 \<rparr>"

text \<open>Collaborators whose move hook vetoes every move, and collaborators for which the
  pointer is past the last item.\<close>

definition veto_helpers :: helpers where
  "veto_helpers = sample_helpers \<lparr> h_onMove := (\<lambda>_ _ _ _ _ _ _. MoveFalse) \<rparr>"

definition past_end_helpers :: helpers where
  "past_end_helpers = sample_helpers \<lparr> h_ghostIsLast := (\<lambda>_ _ _ _. True) \<rparr>"

text \<open>Collaborators that decide to place the dragged item before the target, and the
  pointer over item 2.\<close>

definition before_helpers :: helpers where
  "before_helpers = sample_helpers \<lparr> h_getSwapDirection := (\<lambda>_. - 1) \<rparr>"

definition over_item2 :: event where
  "over_item2 = sample_event \<lparr> evt_target := Some 2 \<rparr>"

definition sample_ctx :: "event \<Rightarrow> dragover_ctx" where
  "sample_ctx evt = dragover_ctx_of dragging_state 10 (sample_sortable 10) evt"

text \<open>Options with a store that returns an order, and so has a \<open>get\<close>.\<close>

definition stored_order_options :: user_options where
  "stored_order_options =
     no_options \<lparr> u_store := Some (Some \<lparr> store_get = Some (Some [''r'', ''q'', ''t'', ''p'']),
                                           store_set = True \<rparr>) \<rparr>"

text \<open>
  A second list 20 with the item 5, on an instance of another group, and the session of
  item 1 over it with collaborators whose groups let clones be pulled.
\<close>

definition two_list_dom :: dom where
  "two_list_dom =
     list_dom \<lparr> childNodes := (childNodes list_dom)(20 := [5]),
                parentNode := (parentNode list_dom)(5 := Some 20) \<rparr>"

definition other_sortable :: sortable where
  "other_sortable =
     (sample_sortable 20)
       \<lparr> options := (options (sample_sortable 20)) \<lparr> group := \<lparr> group_ref = 1, revertClone = False \<rparr> \<rparr> \<rparr>"

definition clone_pull_state :: gstate where
  "clone_pull_state =
     dragging_state \<lparr> tree := two_list_dom,
                      expando := (expando dragging_state)(20 \<mapsto> other_sortable),
                      sortables := [10, 20] \<rparr>"

definition clone_helpers :: helpers where
  "clone_helpers = sample_helpers \<lparr> h_checkPull := (\<lambda>_ _ _ _ _. PullClone) \<rparr>"

definition over_item5 :: event where
  "over_item5 = sample_event \<lparr> evt_target := Some 5 \<rparr>"

text \<open>The session after that: item 1 is in the list 20 behind item 5, and the clone 99
  is shown in the list 10 where item 1 was.\<close>

definition shown_dom :: dom where
  "shown_dom =
     two_list_dom \<lparr> childNodes := (childNodes two_list_dom)(10 := [99, 2, 3, 4], 20 := [5, 1]),
                    parentNode := (parentNode two_list_dom)(99 := Some 10, 1 := Some 20) \<rparr>"

definition clone_shown_state :: gstate where
  "clone_shown_state =
     clone_pull_state \<lparr> tree := shown_dom, parentEl := Some 20, cloneHidden := False,
                        putSortable := Some 20,
                        expando := (expando clone_pull_state)
                                     (20 \<mapsto> other_sortable \<lparr> lastPutMode := Some PullClone \<rparr>) \<rparr>"

text \<open>A session that drags item 3 of the list 10, which lies behind the template node 2,
  and the pointer over item 4.\<close>

definition dragging3_state :: gstate where
  "dragging3_state =
     dragging_state \<lparr> dragEl := Some 3, nextEl := Some 4, lastDownEl := Some (Some 3),
                      oldIndex := Some 1, oldDraggableIndex := Some 1,
                      Sortable_dragged := Some 3 \<rparr>"

definition over_item4 :: event where
  "over_item4 = sample_event \<lparr> evt_target := Some 4 \<rparr>"

subsection \<open>Reading a run\<close>

definition run_effects :: "'a run \<Rightarrow> effect list option" where
  "run_effects m = map_option (\<lambda>x. effects (fst x)) m"

definition run_state :: "'a run \<Rightarrow> gstate option" where
  "run_state m = map_option fst m"

definition run_result :: "'a run \<Rightarrow> (js_error + 'a) option" where
  "run_result m = map_option snd m"

definition run_children :: "'a run \<Rightarrow> nid \<Rightarrow> nid list option" where
  "run_children m c = map_option (\<lambda>x. childNodes (tree (fst x)) c) m"

definition run_silent :: "'a run \<Rightarrow> bool option" where
  "run_silent m = map_option (\<lambda>x. silent (fst x)) m"

definition run_timers :: "'a run \<Rightarrow> (nat \<times> timer_action) list option" where
  "run_timers m = map_option (\<lambda>x. timers (fst x)) m"

section \<open>Properties of the utilities\<close>

lemma index_loop_count:
  "index_loop d clone selector xs i = i + int (length (filter (index_counts d clone selector) xs))"
  by (induction xs arbitrary: i) auto

text \<open>
  C10. The index utility gives -1 for a null element and for an element without a
  parent node. Otherwise it is the number of element siblings before the element that
  are not TEMPLATE nodes, are not the active drag clone and, when a selector is given,
  match it.
\<close>

theorem index_counts_preceding_siblings:
  "index d clone None selector = - 1 \<and>
   (parentNode d e = None \<longrightarrow> index d clone (Some e) selector = - 1) \<and>
   (parentNode d e = Some p \<longrightarrow>
      index d clone (Some e) selector =
        int (length (filter
          (\<lambda>x. isElement d x \<and> toUpperCase (nodeName d x) \<noteq> ''TEMPLATE'' \<and> Some x \<noteq> clone \<and>
               (truthy_str selector \<longrightarrow> matches d (Some x) selector))
          (takeWhile (\<lambda>x. x \<noteq> e) (childNodes d p)))))"
proof -
  have "length (filter (index_counts d clone selector)
            (rev (filter (isElement d) (takeWhile (\<lambda>x. x \<noteq> e) (childNodes d p))))) =
        length (filter
          (\<lambda>x. isElement d x \<and> toUpperCase (nodeName d x) \<noteq> ''TEMPLATE'' \<and> Some x \<noteq> clone \<and>
               (truthy_str selector \<longrightarrow> matches d (Some x) selector))
          (takeWhile (\<lambda>x. x \<noteq> e) (childNodes d p)))"
    unfolding rev_filter [symmetric] length_rev filter_filter
    by (rule arg_cong [where f = length], rule filter_cong) (auto simp: index_counts_def)
  then show ?thesis
    by (simp add: index_def index_loop_count previousElementSiblings_def)
qed

theorem index_counts_preceding_siblings_witness:
  "index list_dom (Some 3) None None = - 1 \<and>
   index list_dom (Some 3) (Some 7) None = - 1 \<and>
   index list_dom (Some 3) (Some 4) None = 1"
  using index_counts_preceding_siblings [of list_dom "Some 3" None 7 10]
    index_counts_preceding_siblings [of list_dom "Some 3" None 4 10]
  by (simp add: list_dom_def blank_dom_def isElement_def toUpperCase_def upper_char_def
      truthy_str_def)

section \<open>Properties of sort and of the constructor\<close>

text \<open>On an instance \<open>Sortable.get\<close> finds nothing, so \<open>toArray\<close> throws, and with it
  \<open>sort\<close>, whatever it is called on.\<close>

lemma toArray_on_instance: "toArray H st (OnInstance i) = Some (Inl TypeError)"
  by (simp add: toArray_def Sortable_get_def)

lemma sort_throws: "sort H st this order useAnimation = Some (st, Inl TypeError)"
  by (cases this)
     (simp_all add: sort_def Sortable_get_def toArray_on_instance split: option.splits)

text \<open>
  C5. Applying an order to a container through \<open>sort\<close>, the container's current order
  or any other, moves no node: the children of every node are as before, no
  \<open>removeChild\<close>, \<open>appendChild\<close> or capture of the animation state is recorded. The
  call ends with a TypeError, thrown before the first of them.
\<close>

theorem sort_performs_no_moves:
  "(\<forall>c. run_children (sort H st this order useAnimation) c = Some (childNodes (tree st) c)) \<and>
   run_effects (sort H st this order useAnimation) = Some (effects st) \<and>
   run_result (sort H st this order useAnimation) = Some (Inl TypeError)"
  by (simp add: sort_throws run_children_def run_effects_def run_result_def)

text \<open>The list 10 with its own order, with and without animation.\<close>

lemma sort_list_state:
  "run_children (sort sample_helpers list_state (OnInstance 10) [''p'', ''t'', ''q'', ''r''] useAnimation) 10
     = Some [1, 2, 3, 4] \<and>
   run_effects (sort sample_helpers list_state (OnInstance 10) [''p'', ''t'', ''q'', ''r''] useAnimation)
     = Some []"
  by (simp add: sort_throws run_children_def run_effects_def list_state_def initial_state_def
        list_dom_def)

text \<open>
  The constructor checks its element first: without an element, or on a node that is not
  an element, it throws the invalid-element error and leaves the module state as it was.
  On an element it never throws that error; without a stored order to restore it returns
  the instance, stored on the element and registered.
\<close>

lemma constructor_checks_element:
  "(e = None \<or> (\<exists>x. e = Some x \<and> nodeType (tree st) x \<noteq> 1) \<longrightarrow>
      Sortable_new H pg st e uo = Some (st, Inl InvalidElement)) \<and>
   (e = Some x \<and> nodeType (tree st) x = 1 \<longrightarrow>
      (\<forall>st'. Sortable_new H pg st e uo \<noteq> Some (st', Inl InvalidElement)) \<and>
      ((case store (merge_defaults (tree st) x uo (pg (u_group uo))) of
          None \<Rightarrow> True | Some sto \<Rightarrow> store_get sto = None) \<longrightarrow>
         (\<exists>st'. Sortable_new H pg st e uo = Some (st', Inr x) \<and>
                expando st' x \<noteq> None \<and> sortables st' = sortables st @ [x])))"
proof (intro conjI impI)
  assume "e = None \<or> (\<exists>x. e = Some x \<and> nodeType (tree st) x \<noteq> 1)"
  then show "Sortable_new H pg st e uo = Some (st, Inl InvalidElement)"
    by (auto simp: Sortable_new_def)
next
  assume ok: "e = Some x \<and> nodeType (tree st) x = 1"
  show "\<forall>st'. Sortable_new H pg st e uo \<noteq> Some (st', Inl InvalidElement)"
    using ok by (auto simp: Sortable_new_def Let_def sort_throws split: option.splits)
next
  assume ok: "e = Some x \<and> nodeType (tree st) x = 1"
    and nostore: "case store (merge_defaults (tree st) x uo (pg (u_group uo))) of
          None \<Rightarrow> True | Some sto \<Rightarrow> store_get sto = None"
  then show "\<exists>st'. Sortable_new H pg st e uo = Some (st', Inr x) \<and>
                expando st' x \<noteq> None \<and> sortables st' = sortables st @ [x]"
    by (auto simp: Sortable_new_def Let_def split: option.splits)
qed

text \<open>
  With a store that has a \<open>get\<close> the constructor goes on to restore the stored order:
  \<open>this.sort\<close> throws, and the TypeError leaves the constructor after the instance has
  been stored on the element and the element registered.
\<close>

lemma constructor_with_store_get:
  assumes "nodeType (tree st) x = 1"
    and "store (merge_defaults (tree st) x uo (pg (u_group uo))) = Some sto"
    and "store_get sto = Some got"
  shows "\<exists>st'. Sortable_new H pg st (Some x) uo = Some (st', Inl TypeError) \<and>
           expando st' x \<noteq> None \<and> sortables st' = sortables st @ [x]"
  using assms by (simp add: Sortable_new_def Let_def sort_throws)

text \<open>
  C9. Building a Sortable on the list 10, an element, with a store that returns an order:
  the constructor throws a TypeError, with the instance stored on the element and the
  element in \<open>sortables\<close>. So the invalid-element error is not the only error that
  ends a construction.
\<close>

theorem constructor_throws_restoring_order:
  "nodeType (tree (initial_state list_dom)) 10 = 1 \<and>
   run_result (Sortable_new sample_helpers sample_prepareGroup (initial_state list_dom) (Some 10)
                 stored_order_options) = Some (Inl TypeError) \<and>
   map_option sortables
     (run_state (Sortable_new sample_helpers sample_prepareGroup (initial_state list_dom) (Some 10)
                   stored_order_options)) = Some [10] \<and>
   map_option (\<lambda>s. expando s 10 \<noteq> None)
     (run_state (Sortable_new sample_helpers sample_prepareGroup (initial_state list_dom) (Some 10)
                   stored_order_options)) = Some True \<and>
   run_children (Sortable_new sample_helpers sample_prepareGroup (initial_state list_dom) (Some 10)
                   stored_order_options) 10 = Some [1, 2, 3, 4]"
  by (simp add: Sortable_new_def Let_def sort_throws run_result_def run_state_def run_children_def
        stored_order_options_def no_options_def merge_defaults_def or_default_def
        initial_state_def list_dom_def blank_dom_def)

section \<open>Properties of the drag session\<close>

lemma remove_from_parent_session [simp]:
  "dragEl (remove_from_parent st x) = dragEl st"
  "newIndex (remove_from_parent st x) = newIndex st"
  "newDraggableIndex (remove_from_parent st x) = newDraggableIndex st"
  "oldIndex (remove_from_parent st x) = oldIndex st"
  "oldDraggableIndex (remove_from_parent st x) = oldDraggableIndex st"
  "Sortable_active (remove_from_parent st x) = Sortable_active st"
  by (simp_all add: remove_from_parent_def split: option.splits)

lemma drop_remove_ghost_clone_session [simp]:
  "dragEl (drop_remove_ghost_clone st) = dragEl st"
  "newIndex (drop_remove_ghost_clone st) = newIndex st"
  "newDraggableIndex (drop_remove_ghost_clone st) = newDraggableIndex st"
  "oldIndex (drop_remove_ghost_clone st) = oldIndex st"
  "oldDraggableIndex (drop_remove_ghost_clone st) = oldDraggableIndex st"
  "Sortable_active (drop_remove_ghost_clone st) = Sortable_active st"
  by (simp_all add: drop_remove_ghost_clone_def Let_def)

lemma save_session [simp]:
  "dragEl (save st i) = dragEl st"
  "newIndex (save st i) = newIndex st"
  "newDraggableIndex (save st i) = newDraggableIndex st"
  "oldIndex (save st i) = oldIndex st"
  "oldDraggableIndex (save st i) = oldDraggableIndex st"
  "Sortable_active (save st i) = Sortable_active st"
  by (simp_all add: save_def split: option.splits)

lemma drop_save_put_session [simp]:
  "dragEl (drop_save_put st) = dragEl st"
  "newIndex (drop_save_put st) = newIndex st"
  "newDraggableIndex (drop_save_put st) = newDraggableIndex st"
  "oldIndex (drop_save_put st) = oldIndex st"
  "oldDraggableIndex (drop_save_put st) = oldDraggableIndex st"
  "Sortable_active (drop_save_put st) = Sortable_active st"
  by (simp_all add: drop_save_put_def split: option.splits)

text \<open>
  C2. A pointer-down that arrives while an item is being dragged (\<open>dragEl\<close> is set)
  ends without an error and changes nothing of the session: the state it leaves is the
  state it found, but for the list of checked inputs, which the handler saves before it
  looks at \<open>dragEl\<close>. No second session starts before the drop, which clears
  \<open>dragEl\<close> whatever the event.
\<close>

theorem tap_start_ignored_while_dragging:
  assumes "dragEl st \<noteq> None"
  shows "(\<exists>st' r. onTapStart H st e evt = Some (st', r) \<and>
            st' \<lparr> savedInputChecked := savedInputChecked st \<rparr> = st \<and> dragEl st' = dragEl st) \<and>
         dragEl (onDrop st this evo) = None"
proof -
  have "dragEl (onDrop st this evo) = None"
    by (simp add: onDrop_def nulling_def)
  moreover have "\<exists>st' r. onTapStart H st e evt = Some (st', r) \<and>
            st' \<lparr> savedInputChecked := savedInputChecked st \<rparr> = st \<and> dragEl st' = dragEl st"
    using assms by (cases "expando st e") (auto simp: onTapStart_def Let_def)
  ultimately show ?thesis by blast
qed

theorem tap_start_ignored_while_dragging_witness:
  "dragEl dragging_state = Some 1 \<and>
   onTapStart sample_helpers dragging_state 10 sample_event = Some (dragging_state, Inr ()) \<and>
   dragEl (onDrop dragging_state (sample_sortable 10) (Some sample_event)) = None"
proof -
  have a: "dragEl dragging_state \<noteq> None" by (simp add: dragging_state_def)
  have b: "onTapStart sample_helpers dragging_state 10 sample_event = Some (dragging_state, Inr ())"
    by (simp add: onTapStart_def dragging_state_def list_state_def sample_event_def
        sample_helpers_def Let_def)
  show ?thesis
    using tap_start_ignored_while_dragging [OF a, of sample_helpers 10 sample_event
        "sample_sortable 10" "Some sample_event"] b
    by (simp add: dragging_state_def)
qed

text \<open>
  A pointer-down on the list itself, beside its items, finds no draggable target. In a
  module that has not seen a session, \<open>lastDownEl\<close> is undefined and differs from that
  \<open>null\<close>, so the handler goes on and records the index -1; after a session has been
  cleared \<open>lastDownEl\<close> is \<open>null\<close> and the handler returns before that.
\<close>

lemma tap_start_beside_the_items:
  "map_option (\<lambda>s. (oldIndex s, oldDraggableIndex s, dragEl s))
     (run_state (onTapStart sample_helpers list_state 10 (sample_event \<lparr> evt_target := Some 10 \<rparr>)))
     = Some (Some (- 1), Some (- 1), None) \<and>
   map_option (\<lambda>s. (oldIndex s, oldDraggableIndex s, dragEl s))
     (run_state (onTapStart sample_helpers (nulling list_state) 10 (sample_event \<lparr> evt_target := Some 10 \<rparr>)))
     = Some (None, None, None)"
  by (simp add: onTapStart_def prepareDragStart_def nulling_def run_state_def Let_def
        list_state_def initial_state_def list_dom_def blank_dom_def sample_sortable_def
        sample_helpers_def sample_event_def merge_defaults_def no_options_def or_default_def
        sample_prepareGroup_def closest_def closest_loop.simps matches_def truthy_str_def getParentOrHost_def
        index_def toUpperCase_def upper_char_def)

text \<open>
  C7. When a drop event ends an active session that was not cancelled and the index of the
  dragged item, taken at the drop, is -1, the final index and the final draggable index
  with which the store is written are the origin index and the origin draggable index of
  the session. (\<open>index\<close> always returns a number, so the final index is never
  undefined.)
\<close>

theorem drop_restores_origin_indices:
  assumes "\<not> eventCanceled st" and "dragEl st = Some x" and "Sortable_active st \<noteq> None"
    and "index (tree st) (Sortable_clone st) (dragEl st) None = - 1"
  shows "newIndex (onDrop_body st this (Some ev)) = oldIndex st \<and>
         newDraggableIndex (onDrop_body st this (Some ev)) = oldDraggableIndex st"
  using assms by (simp add: onDrop_body_def Let_def drop_report_def)

theorem drop_restores_origin_indices_witness:
  "\<not> eventCanceled detached_state \<and> dragEl detached_state = Some 1 \<and>
   Sortable_active detached_state \<noteq> None \<and>
   index (tree detached_state) (Sortable_clone detached_state) (dragEl detached_state) None = - 1 \<and>
   newIndex (onDrop_body detached_state (sample_sortable 10) (Some sample_event)) = Some 0 \<and>
   newDraggableIndex (onDrop_body detached_state (sample_sortable 10) (Some sample_event)) = Some 0"
proof -
  have a: "\<not> eventCanceled detached_state" "dragEl detached_state = Some 1"
    "Sortable_active detached_state \<noteq> None"
    "oldIndex detached_state = Some 0" "oldDraggableIndex detached_state = Some 0"
    by (simp_all add: detached_state_def dragging_state_def list_state_def initial_state_def)
  have b: "index (tree detached_state) (Sortable_clone detached_state) (dragEl detached_state) None = - 1"
    by (simp add: detached_state_def dragging_state_def list_state_def initial_state_def
        index_def detach_def list_dom_def blank_dom_def)
  show ?thesis
    using drop_restores_origin_indices [OF a(1,2,3) b, of "sample_sortable 10" sample_event] a b
    by simp
qed

section \<open>What the parts of the dragover handler preserve\<close>

lemma grows_refl [simp]: "grows st st" by (simp add: grows_def)

lemma grows_iff: "grows st st' = (\<exists>es. effects st' = effects st @ es)"
proof
  assume g: "grows st st'"
  have "effects st' = take (length (effects st)) (effects st') @ drop (length (effects st)) (effects st')"
    by simp
  with g have "effects st' = effects st @ drop (length (effects st)) (effects st')"
    by (simp add: grows_def)
  then show "\<exists>es. effects st' = effects st @ es" ..
next
  assume "\<exists>es. effects st' = effects st @ es"
  then show "grows st st'" by (auto simp: grows_def)
qed

lemma vetofree_iff:
  "vetofree st st' = (\<exists>es. effects st' = effects st @ es \<and> (\<forall>e\<in>set es. \<not> is_veto e))"
  by (auto simp: vetofree_def grows_iff new_effects_def list_ex_iff)

lemma vetofree_refl [simp]: "vetofree st st" by (simp add: vetofree_iff)

lemma vetofree_trans: "vetofree a b \<Longrightarrow> vetofree b c \<Longrightarrow> vetofree a c"
  by (auto simp: vetofree_iff)

lemma vetofree_same: "effects st' = effects st \<Longrightarrow> vetofree st st'"
  by (simp add: vetofree_iff)

lemma struct_refl [simp]: "struct P st st" by (simp add: struct_def)

lemma structD:
  assumes "struct P a b"
  shows "cloneEl b = cloneEl a" "dragEl b = dragEl a" "rootEl b = rootEl a" "nextEl b = nextEl a"
    "Sortable_active b = Sortable_active a"
    "wf_dom (tree a) \<Longrightarrow> wf_dom (tree b)"
    "Some x \<noteq> cloneEl a \<Longrightarrow> parentNode (tree b) x = parentNode (tree a) x \<or>
                (Some x = dragEl a \<and> parentNode (tree b) x \<in> Some ` P)"
proof -
  from assms have all: "\<forall>x. if Some x = cloneEl a then True
           else parentNode (tree b) x = parentNode (tree a) x \<or>
                (Some x = dragEl a \<and> parentNode (tree b) x \<in> Some ` P)"
    by (simp add: struct_def)
  show "Some x \<noteq> cloneEl a \<Longrightarrow> parentNode (tree b) x = parentNode (tree a) x \<or>
                (Some x = dragEl a \<and> parentNode (tree b) x \<in> Some ` P)"
    using spec [OF all, of x] by simp
  from assms have "if wf_dom (tree a) then wf_dom (tree b) else True" by (simp add: struct_def)
  then show "wf_dom (tree a) \<Longrightarrow> wf_dom (tree b)" by simp
qed (use assms in \<open>simp_all add: struct_def\<close>)

lemma structI:
  assumes "cloneEl b = cloneEl a" "dragEl b = dragEl a" "rootEl b = rootEl a" "nextEl b = nextEl a"
    "Sortable_active b = Sortable_active a"
    "wf_dom (tree a) \<Longrightarrow> wf_dom (tree b)"
    "\<And>x. Some x \<noteq> cloneEl a \<Longrightarrow> parentNode (tree b) x = parentNode (tree a) x \<or>
                (Some x = dragEl a \<and> parentNode (tree b) x \<in> Some ` P)"
  shows "struct P a b"
  unfolding struct_def using assms by simp

lemma struct_trans:
  assumes ab: "struct P a b" and bc: "struct P b c"
  shows "struct P a c"
proof (rule structI)
  show "wf_dom (tree a) \<Longrightarrow> wf_dom (tree c)" using structD(6) [OF ab] structD(6) [OF bc] by simp
  fix x assume x: "Some x \<noteq> cloneEl a"
  then have x': "Some x \<noteq> cloneEl b" using structD(1) [OF ab] by simp
  from structD(7) [OF ab x] structD(7) [OF bc x'] structD(2) [OF ab]
  show "parentNode (tree c) x = parentNode (tree a) x \<or>
                (Some x = dragEl a \<and> parentNode (tree c) x \<in> Some ` P)"
    by auto
qed (use structD(1-5) [OF ab] structD(1-5) [OF bc] in simp_all)

lemma low_refl [simp]: "low P st st" by (simp add: low_def)
lemma low_trans: "low P a b \<Longrightarrow> low P b c \<Longrightarrow> low P a c"
  unfolding low_def using struct_trans [of P a b c] vetofree_trans [of a b c] by simp

lemma quiet_refl [simp]: "quiet st st" by (simp add: quiet_def)
lemma quiet_trans: "quiet a b \<Longrightarrow> quiet b c \<Longrightarrow> quiet a c"
  unfolding quiet_def using vetofree_trans [of a b c] by simp

lemma quiet_low: "quiet st st' \<Longrightarrow> low P st st'"
  by (simp add: quiet_def low_def struct_def)

lemma ends_ok [simp]: "ends (ok st v) Q = Q st" by (simp add: ends_def ok_def)
lemma ends_throw [simp]: "ends (throw st e) Q = Q st" by (simp add: ends_def throw_def)
lemma ends_None [simp]: "ends None Q" by (simp add: ends_def)
lemma ends_Some [simp]: "ends (Some (st, r)) Q = Q st" by (simp add: ends_def)

lemma ends_andThen:
  assumes m: "ends m (R st)"
    and f: "\<And>st1 v. R st st1 \<Longrightarrow> ends (f st1 v) (R st1)"
    and tr: "\<And>a b c. R a b \<Longrightarrow> R b c \<Longrightarrow> R a c"
  shows "ends (andThen m f) (R st)"
  unfolding ends_def
proof (intro allI impI)
  fix st' r
  assume run: "andThen m f = Some (st', r)"
  show "R st st'"
  proof (cases m)
    case None
    with run show ?thesis by (simp add: andThen_def)
  next
    case (Some a)
    obtain st1 v where a: "a = (st1, v)" by (cases a)
    have r1: "R st st1" using m Some a by (simp add: ends_def)
    show ?thesis
    proof (cases v)
      case (Inl e)
      with run Some a have "st' = st1" by (simp add: andThen_def)
      with r1 show ?thesis by simp
    next
      case (Inr w)
      with run Some a have "f st1 w = Some (st', r)" by (simp add: andThen_def)
      with f [OF r1, of w] have "R st1 st'" by (simp add: ends_def)
      with r1 show ?thesis by (rule tr)
    qed
  qed
qed

lemma ends_weaken: "ends m Q \<Longrightarrow> (\<And>st. Q st \<Longrightarrow> Q' st) \<Longrightarrow> ends m Q'"
  by (auto simp: ends_def)

lemma endsD: "ends m Q \<Longrightarrow> m = Some (st', r) \<Longrightarrow> Q st'"
  by (auto simp: ends_def)


subsection \<open>Tree lemmas\<close>

lemma parentNode_detach: "parentNode (detach d n) = (parentNode d)(n := None)"
  by (auto simp: detach_def fun_eq_iff split: option.splits)

lemma parentNode_attach: "parentNode (attach d p n r) = (parentNode d)(n := Some p)"
  by (simp add: attach_def)

lemma set_insert_before_list: "set (insert_before_list n r xs) = insert n (set xs)"
proof (cases r)
  case None
  then show ?thesis by (simp add: insert_before_list_def)
next
  case (Some c)
  have "set (takeWhile (\<lambda>x. x \<noteq> c) xs) \<union> set (dropWhile (\<lambda>x. x \<noteq> c) xs) = set xs"
    by (metis set_append takeWhile_dropWhile_id)
  with Some show ?thesis by (auto simp: insert_before_list_def)
qed

lemma distinct_insert_before_list:
  assumes "distinct xs" and "n \<notin> set xs"
  shows "distinct (insert_before_list n r xs)"
proof (cases r)
  case None
  with assms show ?thesis by (simp add: insert_before_list_def)
next
  case (Some c)
  let ?tw = "takeWhile (\<lambda>x. x \<noteq> c) xs" and ?dw = "dropWhile (\<lambda>x. x \<noteq> c) xs"
  have e: "?tw @ ?dw = xs" by simp
  have d: "distinct ?tw \<and> distinct ?dw \<and> set ?tw \<inter> set ?dw = {}"
    using distinct_append [of ?tw ?dw] assms(1) unfolding e by blast
  have s: "set ?tw \<union> set ?dw = set xs"
    by (metis set_append takeWhile_dropWhile_id)
  have "n \<notin> set ?tw" "n \<notin> set ?dw" using s assms(2) by auto
  with d Some show ?thesis
    by (simp add: insert_before_list_def)
qed

lemma wf_detach:
  assumes "wf_dom d"
  shows "wf_dom (detach d n)"
proof (cases "parentNode d n")
  case None
  with assms show ?thesis by (simp add: detach_def)
next
  case (Some q)
  have mem: "\<And>p m. (m \<in> set (childNodes d p)) = (parentNode d m = Some p)"
    and dis: "\<And>p. distinct (childNodes d p)"
    using assms by (simp_all add: wf_dom_def)
  show ?thesis
    unfolding wf_dom_def using Some mem dis
    by (auto simp: detach_def)
qed

lemma wf_attach:
  assumes "wf_dom d" and "parentNode d n = None"
  shows "wf_dom (attach d p n r)"
proof -
  have mem: "\<And>p m. (m \<in> set (childNodes d p)) = (parentNode d m = Some p)"
    and dis: "\<And>p. distinct (childNodes d p)"
    using assms by (simp_all add: wf_dom_def)
  have nin: "\<And>p. n \<notin> set (childNodes d p)" using mem assms(2) by simp
  show ?thesis
    unfolding wf_dom_def using mem dis nin
    by (auto simp: attach_def set_insert_before_list distinct_insert_before_list)
qed

lemma wf_reinsert: "wf_dom d \<Longrightarrow> wf_dom (attach (detach d n) p n r)"
  by (rule wf_attach) (simp_all add: wf_detach parentNode_detach)

lemma parentNode_reinsert:
  "parentNode (attach (detach d n) p n r) = (parentNode d)(n := Some p)"
  by (simp add: parentNode_attach parentNode_detach)

lemma css_set_display_tree [simp]:
  "parentNode (css_set_display d e v) = parentNode d"
  "childNodes (css_set_display d e v) = childNodes d"
  "wf_dom (css_set_display d e v) = wf_dom d"
  by (simp_all add: css_set_display_def wf_dom_def split: option.splits)

lemma insertBefore_cases:
  assumes "insertBefore d p (Some n) ref = Some (Inr d')"
  shows "\<exists>r. d' = attach (detach d n) p n r"
  using assms
  by (auto simp: insertBefore_def split: option.splits bool.splits if_splits)

subsection \<open>The procedures\<close>

lemma vetofree_same_simp [simp]: "effects st' = effects st \<Longrightarrow> vetofree st st'"
  by (simp add: vetofree_iff)

lemma vetofree_append:
  "effects st' = effects st @ es \<Longrightarrow> \<forall>e\<in>set es. \<not> is_veto e \<Longrightarrow> vetofree st st'"
  by (auto simp: vetofree_iff)

lemma st_insertBefore_low:
  assumes "node = cloneEl st \<or> (node = dragEl st \<and> p \<in> P)"
  shows "ends (st_insertBefore st p node ref) (low P st)"
  unfolding ends_def
proof (intro allI impI)
  fix st' r
  assume run: "st_insertBefore st p node ref = Some (st', r)"
  show "low P st st'"
  proof (cases "st' = st")
    case True
    then show ?thesis by simp
  next
    case False
    with run obtain n d' where n: "node = Some n"
      and ins: "insertBefore (tree st) p (Some n) ref = Some (Inr d')"
      and st': "st' = st \<lparr> tree := d', effects := effects st @ [DomInsertBefore p n ref] \<rparr>"
      by (auto simp: st_insertBefore_def split: option.splits sum.splits)
    from insertBefore_cases [OF ins] obtain r' where d': "d' = attach (detach (tree st) n) p n r'" ..
    have vf: "vetofree st st'"
      by (rule vetofree_append [where es = "[DomInsertBefore p n ref]"]) (simp_all add: st')
    have "struct P st st'"
    proof (rule structI)
      show "wf_dom (tree st) \<Longrightarrow> wf_dom (tree st')" by (simp add: st' d' wf_reinsert)
      fix x assume x: "Some x \<noteq> cloneEl st"
      show "parentNode (tree st') x = parentNode (tree st) x \<or>
                (Some x = dragEl st \<and> parentNode (tree st') x \<in> Some ` P)"
        using assms n x by (auto simp: st' d' parentNode_reinsert)
    qed (simp_all add: st')
    then show ?thesis using vf by (simp add: low_def st')
  qed
qed

lemma insert_under_root_low:
  assumes "node = cloneEl st \<or> (node = dragEl st \<and> (\<forall>r. rootEl st = Some r \<longrightarrow> r \<in> P))"
  shows "ends (insert_under_root st node ref) (low P st)"
proof (cases "rootEl st")
  case None
  then show ?thesis by (simp add: insert_under_root_def)
next
  case (Some r)
  with assms show ?thesis
    by (simp add: insert_under_root_def st_insertBefore_low)
qed

lemma remove_from_parent_clone_low: "low P st (remove_from_parent st (cloneEl st))"
proof (cases "cloneEl st")
  case None
  then show ?thesis by (simp add: remove_from_parent_def)
next
  case (Some c)
  show ?thesis
  proof (cases "parentNode (tree st) c")
    case None
    with Some show ?thesis by (simp add: remove_from_parent_def)
  next
    case (Some q)
    let ?st' = "remove_from_parent st (Some c)"
    have st': "?st' = st \<lparr> tree := detach (tree st) c, effects := effects st @ [DomRemoveChild q c] \<rparr>"
      using Some by (simp add: remove_from_parent_def)
    have vf: "vetofree st ?st'"
      by (rule vetofree_append [where es = "[DomRemoveChild q c]"]) (simp_all add: st')
    have "struct P st ?st'"
    proof (rule structI)
      show "wf_dom (tree st) \<Longrightarrow> wf_dom (tree ?st')" by (simp add: st' wf_detach)
      fix x assume "Some x \<noteq> cloneEl st"
      then show "parentNode (tree ?st') x = parentNode (tree st) x \<or>
                (Some x = dragEl st \<and> parentNode (tree ?st') x \<in> Some ` P)"
        using \<open>cloneEl st = Some c\<close> by (auto simp: st' parentNode_detach)
    qed (simp_all add: st')
    then show ?thesis using vf \<open>cloneEl st = Some c\<close> by (simp add: low_def st')
  qed
qed

lemma quiet_effect: "quiet st (st \<lparr> effects := effects st @ [e] \<rparr>) = (\<not> is_veto e)"
  by (auto simp: quiet_def vetofree_iff)

lemma captureAnimationState_quiet: "ends (captureAnimationState st s) (quiet st)"
  by (auto simp: captureAnimationState_def ends_def quiet_effect split: option.splits)

lemma capture_quiet: "ends (capture X st) (quiet st)"
  unfolding capture_def
  by (rule ends_andThen [where R = quiet])
     (auto simp: captureAnimationState_quiet split: option.splits intro: quiet_trans)

lemma animate_quiet: "ends (animate st a) (quiet st)"
  by (auto simp: animate_def quiet_effect split: option.splits)

lemma isOutsideThisEl_quiet: "ends (isOutsideThisEl st p t) (quiet st)"
  by (auto simp: isOutsideThisEl_def quiet_def split: option.splits)

lemma low_css:
  "low P st (st \<lparr> tree := css_set_display (tree st) e v \<rparr>)"
  by (simp add: low_def struct_def)

lemma hideClone_low: "ends (hideClone st a) (low P st)"
proof -
  let ?st1 = "st \<lparr> tree := css_set_display (tree st) (cloneEl st) ''none'' \<rparr>"
  have l1: "low P st ?st1" by (rule low_css)
  have l2: "low P ?st1 (remove_from_parent ?st1 (cloneEl ?st1))"
    by (rule remove_from_parent_clone_low)
  have l3: "low P st (remove_from_parent ?st1 (cloneEl ?st1))"
    using l1 l2 by (rule low_trans)
  have l4: "low P st ((remove_from_parent ?st1 (cloneEl ?st1)) \<lparr> cloneHidden := True \<rparr>)"
    using l3 by (simp add: low_def struct_def vetofree_def grows_def new_effects_def)
  have l5: "low P st (?st1 \<lparr> cloneHidden := True \<rparr>)"
    using l1 by (simp add: low_def struct_def vetofree_def grows_def new_effects_def)
  show ?thesis
    using l1 l4 l5
    by (auto simp: hideClone_def Let_def split: option.splits)
qed


lemma ends_andThen_low:
  assumes "ends m (low P st)"
    and "\<And>st1 v. low P st st1 \<Longrightarrow> ends (f st1 v) (low P st1)"
  shows "ends (andThen m f) (low P st)"
  using assms(1) assms(2) low_trans by (rule ends_andThen)

lemma ends_quiet_low: "ends m (quiet st) \<Longrightarrow> ends m (low P st)"
  by (erule ends_weaken) (rule quiet_low)

lemma showClone_low: "ends (showClone st a put) (low P st)"
proof (cases "expando st a")
  case None
  then show ?thesis by (simp add: showClone_def)
next
  case (Some this)
  show ?thesis
  proof (cases "lastPutMode_of st put \<noteq> Some PullClone \<or> \<not> cloneHidden st \<or> eventCanceled st \<or> dragEl st = None")
    case True
    then show ?thesis using Some hideClone_low [of st a P]
      by (auto simp: showClone_def)
  next
    case False
    then obtain dg where dg: "dragEl st = Some dg" by auto
    let ?ins = "if parentNode (tree st) dg = rootEl st \<and> \<not> revertClone (group (options this))
                    then insert_under_root st (cloneEl st) (Some dg)
                    else if nextEl st \<noteq> None then insert_under_root st (cloneEl st) (nextEl st)
                    else insert_under_root st (cloneEl st) None"
    have i: "ends ?ins (low P st)" by (simp add: insert_under_root_low)
    have rest: "\<And>st1 v. low P st st1 \<Longrightarrow>
        ends (andThen (if revertClone (group (options this)) then animate st1 a else ok st1 ())
                (\<lambda>st2 _. ok (st2 \<lparr> tree := css_set_display (tree st2) (cloneEl st2) [],
                                     cloneHidden := False \<rparr>) ())) (low P st1)"
    proof (rule ends_andThen_low)
      fix st1 :: gstate
      show "ends (if revertClone (group (options this)) then animate st1 a else ok st1 ()) (low P st1)"
        using animate_quiet [of st1 a, THEN ends_quiet_low, of P] by simp
      fix st2 :: gstate
      show "ends (ok (st2 \<lparr> tree := css_set_display (tree st2) (cloneEl st2) [],
                                     cloneHidden := False \<rparr>) ()) (low P st2)"
        by (simp add: low_def struct_def)
    qed
    have "ends (andThen ?ins (\<lambda>st1 _.
                      andThen (if revertClone (group (options this)) then animate st1 a else ok st1 ())
                        (\<lambda>st2 _.
                           ok (st2 \<lparr> tree := css_set_display (tree st2) (cloneEl st2) [],
                                     cloneHidden := False \<rparr>) ()))) (low P st)"
      using i rest by (rule ends_andThen_low)
    then show ?thesis using False Some dg by (simp add: showClone_def)
  qed
qed

lemma quiet_upd_sortable [simp]: "quiet st (upd_sortable st s f)"
  by (simp add: quiet_def upd_sortable_def)

lemma quiet_animateAll [simp]: "quiet st (animateAll st s)"
  by (auto simp: animateAll_def quiet_effect split: option.splits)

lemma quiet_animateAll_callback [simp]: "quiet st (animateAll_callback H st s)"
proof -
  have "quiet (st \<lparr> effects := effects st @ [AnimateAll s] \<rparr>)
          (upd_sortable (st \<lparr> effects := effects st @ [AnimateAll s] \<rparr>) s f)" for f
    by (rule quiet_upd_sortable)
  moreover have "quiet st (st \<lparr> effects := effects st @ [AnimateAll s] \<rparr>)"
    by (simp add: quiet_effect)
  ultimately show ?thesis
    by (auto simp: animateAll_callback_def Let_def split: option.splits intro: quiet_trans)
qed

lemma quiet_update_putSortable [simp]: "quiet st (update_putSortable s st)"
  by (simp add: update_putSortable_def quiet_def)

lemma quiet_mark_ignore [simp]: "quiet st (mark_ignore X target st)"
  by (simp add: mark_ignore_def)

lemma completed_animation_quiet: "ends (completed_animation H X st) (quiet st)"
proof -
  let ?st4 = "animateAll_callback H st (x_s X)"
  have q4: "quiet st ?st4" by simp
  have q5: "quiet st (upd_sortable (animateAll ?st4 f) f g)" for f g
    using q4 quiet_animateAll [of ?st4 f] quiet_upd_sortable [of "animateAll ?st4 f" f g]
    by (blast intro: quiet_trans)
  show ?thesis
  proof (cases "x_from X")
    case None
    then show ?thesis using q4 by (simp add: completed_animation_def Let_def)
  next
    case (Some f)
    then show ?thesis using q4 q5 [of f] by (simp add: completed_animation_def Let_def)
  qed
qed

lemma completed_insertion_low: "ends (completed_insertion H X target st) (low P st)"
  unfolding completed_insertion_def
proof (rule ends_andThen_low)
  show "ends (case x_active X of None \<Rightarrow> ok st ()
        | Some a \<Rightarrow> if x_isOwner X then hideClone st a else showClone st a (x_s X)) (low P st)"
    by (simp add: hideClone_low showClone_low split: option.splits)
  fix st1 :: gstate
  let ?st3 = "mark_ignore X target (update_putSortable (x_s X) st1)"
  have q: "quiet st1 ?st3"
    using quiet_update_putSortable [of st1 "x_s X"] quiet_mark_ignore [of "update_putSortable (x_s X) st1" X target]
    by (rule quiet_trans)
  have "ends (completed_animation H X ?st3) (quiet ?st3)" by (rule completed_animation_quiet)
  then have "ends (completed_animation H X ?st3) (quiet st1)"
    by (rule ends_weaken) (rule quiet_trans [OF q])
  then show "ends (completed_animation H X ?st3) (low P st1)" by (rule ends_quiet_low)
qed

lemma forget_lastTarget_quiet: "forget_lastTarget X target st = Inr st1 \<Longrightarrow> quiet st st1"
  by (auto simp: forget_lastTarget_def quiet_def split: if_splits)

lemma completed_outside_quiet: "ends (completed_outside X target insertion st) (quiet st)"
proof (cases "holder st")
  case None
  then show ?thesis by (simp add: completed_outside_def)
next
  case (Some p)
  have "ends (andThen (isOutsideThisEl st p (evt_target (x_evt X)))
                  (\<lambda>st2 _.
                     ok (if \<not> insertion
                         then st2 \<lparr> effects := effects st2 @ [NearestEmptyInsertDetect] \<rparr>
                         else st2) (RBool True))) (quiet st)"
    by (rule ends_andThen [where R = quiet])
       (auto simp: isOutsideThisEl_quiet quiet_effect intro: quiet_trans)
  then show ?thesis using Some by (simp add: completed_outside_def)
qed

lemma completed_rest_quiet: "ends (completed_rest X target insertion st) (quiet st)"
proof (cases "forget_lastTarget X target st")
  case (Inl e)
  then show ?thesis by (simp add: completed_rest_def)
next
  case (Inr st1)
  have q: "quiet st st1" using Inr by (rule forget_lastTarget_quiet)
  have "ends (completed_outside X target insertion st1) (quiet st1)"
    by (rule completed_outside_quiet)
  then have "ends (completed_outside X target insertion st1) (quiet st)"
    by (rule ends_weaken) (rule quiet_trans [OF q])
  then show ?thesis using Inr by (simp add: completed_rest_def)
qed

lemma completed_False_quiet: "ends (completed H X target False st) (quiet st)"
  unfolding completed_def
  by (rule ends_andThen [where R = quiet]) (auto simp: completed_rest_quiet intro: quiet_trans)

lemma completed_low: "ends (completed H X target insertion st) (low P st)"
  unfolding completed_def
proof (rule ends_andThen_low)
  show "ends (if insertion then completed_insertion H X target st else ok st ()) (low P st)"
    by (simp add: completed_insertion_low)
  fix st1 :: gstate
  show "ends (completed_rest X target insertion st1) (low P st1)"
    by (rule ends_quiet_low) (rule completed_rest_quiet)
qed

lemma is_veto_OnMoveCall [simp]: "is_veto (OnMoveCall s t a r) = (r = MoveFalse)"
  by (cases r) simp_all

lemma ends_returning [simp]: "ends (returning m) Q = ends m Q"
  by (auto simp: returning_def andThen_def ends_def ok_def split: option.splits sum.splits prod.splits)

lemma low_struct: "low P a b \<Longrightarrow> struct P a b" by (simp add: low_def)
lemma low_vetofree: "low P a b \<Longrightarrow> vetofree a b" by (simp add: low_def)

lemma vetofree_grows: "vetofree a b \<Longrightarrow> grows a b" by (simp add: vetofree_def)

lemma low_br: "low P a b \<Longrightarrow> br P a b"
  by (simp add: br_def low_def veto_safe_def vetofree_def)

lemma quiet_br: "quiet a b \<Longrightarrow> br P a b"
  by (rule low_br) (rule quiet_low)

lemma grows_trans: "grows a b \<Longrightarrow> grows b c \<Longrightarrow> grows a c"
  by (auto simp: grows_iff)

lemma quiet_then_br:
  assumes q: "quiet a b" and b: "br P b c"
  shows "br P a c"
proof -
  have s: "struct P a c"
    using quiet_low [OF q, THEN low_struct, of P] b by (auto simp: br_def intro: struct_trans)
  have qa: "tree b = tree a" "dragEl b = dragEl a" "Sortable_active b = Sortable_active a" "vetofree a b"
    using q by (simp_all add: quiet_def)
  have "veto_safe a c"
    using b qa unfolding br_def veto_safe_def
    by (auto intro: vetofree_trans grows_trans vetofree_grows)
  with s show ?thesis by (simp add: br_def)
qed

lemma br_then_quiet:
  assumes b: "br P a b" and q: "quiet b c"
  shows "br P a c"
proof -
  have s: "struct P a c"
    using quiet_low [OF q, THEN low_struct, of P] b by (auto simp: br_def intro: struct_trans)
  have qa: "tree c = tree b" "dragEl c = dragEl b" "Sortable_active c = Sortable_active b" "vetofree b c"
    using q by (simp_all add: quiet_def)
  have "veto_safe a c"
    using b qa unfolding br_def veto_safe_def
    by (auto intro: vetofree_trans grows_trans vetofree_grows)
  with s show ?thesis by (simp add: br_def)
qed

lemma call_onMove_state:
  "fst (call_onMove H X t a st) =
     st \<lparr> effects := effects st @ [OnMoveCall (x_s X) t a (snd (call_onMove H X t a st))] \<rparr>"
  by (simp add: call_onMove_def Let_def)

lemma call_onMove_pass:
  "snd (call_onMove H X t a st) \<noteq> MoveFalse \<Longrightarrow> quiet st (fst (call_onMove H X t a st))"
  by (subst call_onMove_state) (simp add: quiet_effect)

lemma call_onMove_br: "br P st (fst (call_onMove H X t a st))"
proof -
  have "grows st (fst (call_onMove H X t a st))"
    by (subst call_onMove_state) (simp add: grows_iff)
  then show ?thesis
    by (subst call_onMove_state, subst (asm) call_onMove_state)
       (simp add: br_def struct_def veto_safe_def)
qed

lemma quiet_then_low: "quiet a b \<Longrightarrow> low P b c \<Longrightarrow> low P a c"
  by (blast intro: low_trans quiet_low)

lemma ends_quiet_then_low: "quiet a b \<Longrightarrow> ends m (low P b) \<Longrightarrow> ends m (low P a)"
  unfolding ends_def by (blast intro: quiet_then_low)

lemma capture_low: "ends (capture X st) (low P st)"
  by (rule ends_quiet_low) (rule capture_quiet)

lemma quiet_changed [simp]: "quiet st (changed X st)"
  by (simp add: changed_def quiet_def)

lemma quiet_parentEl [simp]: "quiet st (st \<lparr> parentEl := v \<rparr>)"
  by (simp add: quiet_def)

lemma dragover_revert_low:
  assumes "\<forall>r. rootEl st = Some r \<longrightarrow> r \<in> P"
  shows "ends (dragover_revert H X target st) (low P st)"
proof -
  let ?st1 = "st \<lparr> parentEl := rootEl st \<rparr>"
  have "ends (dragover_revert H X target st) (low P ?st1)"
    unfolding dragover_revert_def
  proof (rule ends_andThen_low)
    show "ends (capture X ?st1) (low P ?st1)" by (rule capture_low)
    fix st2 :: gstate assume a2: "low P ?st1 st2"
    show "ends (andThen (hideClone st2 (x_s X))
            (\<lambda>st3 _. andThen (if \<not> eventCanceled st3 then insert_under_root st3 (dragEl st3) (nextEl st3)
                        else ok st3 ())
                 (\<lambda>st4 _. completed H X target True st4))) (low P st2)"
    proof (rule ends_andThen_low)
      show "ends (hideClone st2 (x_s X)) (low P st2)" by (rule hideClone_low)
      fix st3 :: gstate assume a3: "low P st2 st3"
      have "rootEl st3 = rootEl st"
        using structD(3) [OF low_struct [OF a2]] structD(3) [OF low_struct [OF a3]] by simp
      then have r3: "\<forall>r. rootEl st3 = Some r \<longrightarrow> r \<in> P" using assms by simp
      show "ends (andThen (if \<not> eventCanceled st3 then insert_under_root st3 (dragEl st3) (nextEl st3)
                        else ok st3 ())
                 (\<lambda>st4 _. completed H X target True st4)) (low P st3)"
      proof (rule ends_andThen_low)
        show "ends (if \<not> eventCanceled st3 then insert_under_root st3 (dragEl st3) (nextEl st3)
                        else ok st3 ()) (low P st3)"
          using r3 by (simp add: insert_under_root_low)
        fix st4 :: gstate
        show "ends (completed H X target True st4) (low P st4)" by (rule completed_low)
      qed
    qed
  qed
  then show ?thesis by (rule ends_quiet_then_low [rotated]) simp
qed

text \<open>Insert the dragged item under a node of P, then finish.\<close>

lemma place_and_complete_low:
  assumes "p \<in> P"
  shows "ends (andThen (capture X st)
                (\<lambda>st2 _.
                   andThen (st_insertBefore st2 p (dragEl st2) (ref st2))
                     (\<lambda>st3 _. returning (completed H X tg True (changed X (st3 \<lparr> parentEl := Some s \<rparr>))))))
           (low P st)"
proof (rule ends_andThen_low)
  show "ends (capture X st) (low P st)" by (rule capture_low)
  fix st2 :: gstate
  show "ends (andThen (st_insertBefore st2 p (dragEl st2) (ref st2))
                     (\<lambda>st3 _. returning (completed H X tg True (changed X (st3 \<lparr> parentEl := Some s \<rparr>)))))
         (low P st2)"
  proof (rule ends_andThen_low)
    show "ends (st_insertBefore st2 p (dragEl st2) (ref st2)) (low P st2)"
      using assms by (simp add: st_insertBefore_low)
    fix st3 :: gstate
    have q: "quiet st3 (changed X (st3 \<lparr> parentEl := Some s \<rparr>))"
      using quiet_parentEl [of st3 "Some s"] quiet_changed [of "st3 \<lparr> parentEl := Some s \<rparr>" X]
      by (rule quiet_trans)
    show "ends (returning (completed H X tg True (changed X (st3 \<lparr> parentEl := Some s \<rparr>)))) (low P st3)"
      using ends_quiet_then_low [OF q completed_low] by simp
  qed
qed

lemma dragover_end_br:
  assumes "x_s X \<in> P"
  shows "ends (dragover_end H X target elLastChild st) (br P st)"
proof (cases "elLastChild = dragEl st")
  case True
  then show ?thesis
    using completed_False_quiet [of H X target st]
    by (simp add: dragover_end_def) (erule ends_weaken, rule quiet_br)
next
  case False
  let ?t1 = "if elLastChild \<noteq> None \<and> Some (x_s X) = evt_target (x_evt X) then elLastChild else target"
  let ?mv = "call_onMove H X ?t1 (?t1 \<noteq> None) st"
  show ?thesis
  proof (cases "snd ?mv = MoveFalse")
    case True
    then show ?thesis using False call_onMove_br [of P st H X ?t1 "?t1 \<noteq> None"]
      by (simp add: dragover_end_def Let_def)
  next
    case pass: False
    have q: "quiet st (fst ?mv)" using pass by (rule call_onMove_pass)
    have "ends (andThen (capture X (fst ?mv))
                (\<lambda>st2 _.
                   andThen (st_insertBefore st2 (x_s X) (dragEl st2)
                              (case elLastChild of None \<Rightarrow> None | Some l \<Rightarrow> nextSibling (tree st2) l))
                     (\<lambda>st3 _.
                        returning (completed H X ?t1 True
                                     (changed X (st3 \<lparr> parentEl := Some (x_s X) \<rparr>))))))
            (low P (fst ?mv))"
      using assms by (rule place_and_complete_low)
    then have "ends (dragover_end H X target elLastChild st) (low P (fst ?mv))"
      using False pass by (simp add: dragover_end_def Let_def)
    then have "ends (dragover_end H X target elLastChild st) (low P st)"
      by (rule ends_quiet_then_low [OF q])
    then show ?thesis by (rule ends_weaken) (rule low_br)
  qed
qed


lemma dragover_start_br:
  assumes "x_s X \<in> P"
  shows "ends (dragover_start H X target st) (br P st)"
proof (cases "getChild st (x_s X) 0 (x_opts X) True")
  case None
  then show ?thesis by (simp add: dragover_start_def)
next
  case (Some firstChild)
  show ?thesis
  proof (cases "firstChild = dragEl st")
    case True
    then show ?thesis
      using Some completed_False_quiet [of H X target st]
      by (simp add: dragover_start_def) (erule ends_weaken, rule quiet_br)
  next
    case False
    show ?thesis
    proof (cases firstChild)
      case None
      then show ?thesis using Some False by (simp add: dragover_start_def br_def struct_def veto_safe_def)
    next
      case fc: (Some fc)
      let ?mv = "call_onMove H X (Some fc) False st"
      show ?thesis
      proof (cases "snd ?mv = MoveFalse")
        case True
        then show ?thesis using Some False fc call_onMove_br [of P st H X "Some fc" False]
          by (simp add: dragover_start_def Let_def)
      next
        case pass: False
        have q: "quiet st (fst ?mv)" using pass by (rule call_onMove_pass)
        have "ends (andThen (capture X (fst ?mv))
                (\<lambda>st2 _.
                   andThen (st_insertBefore st2 (x_s X) (dragEl st2) (Some fc))
                     (\<lambda>st3 _.
                        returning (completed H X (Some fc) True
                                     (changed X (st3 \<lparr> parentEl := Some (x_s X) \<rparr>))))))
            (low P (fst ?mv))"
          using assms by (rule place_and_complete_low [where ref = "\<lambda>_. Some fc"])
        then have "ends (dragover_start H X target st) (low P (fst ?mv))"
          using Some False fc pass by (simp add: dragover_start_def Let_def)
        then have "ends (dragover_start H X target st) (low P st)"
          by (rule ends_quiet_then_low [OF q])
        then show ?thesis by (rule ends_weaken) (rule low_br)
      qed
    qed
  qed
qed

text \<open>The committed swap: the guard is set before anything else and stays set.\<close>


lemma ends_andThen2:
  assumes m: "ends m R1"
    and f: "\<And>st1 v. R1 st1 \<Longrightarrow> ends (f st1 v) (R2 st1)"
    and tr: "\<And>b c. R1 b \<Longrightarrow> R2 b c \<Longrightarrow> R3 c"
    and w: "\<And>b. R1 b \<Longrightarrow> R3 b"
  shows "ends (andThen m f) R3"
  unfolding ends_def
proof (intro allI impI)
  fix st' r
  assume run: "andThen m f = Some (st', r)"
  show "R3 st'"
  proof (cases m)
    case None
    with run show ?thesis by (simp add: andThen_def)
  next
    case (Some a)
    obtain st1 v where a: "a = (st1, v)" by (cases a)
    have r1: "R1 st1" using m Some a by (simp add: ends_def)
    show ?thesis
    proof (cases v)
      case (Inl e)
      with run Some a have "st' = st1" by (simp add: andThen_def)
      with r1 show ?thesis by (simp add: w)
    next
      case (Inr x)
      with run Some a have "f st1 x = Some (st', r)" by (simp add: andThen_def)
      with f [OF r1, of x] have "R2 st1 st'" by (simp add: ends_def)
      with r1 show ?thesis by (rule tr)
    qed
  qed
qed

lemma swap_commit_low:
  assumes P: "x_s X \<in> P" and pt: "parentNode (tree st) t = Some (x_s X)"
    and dg: "dragEl st = Some dg"
  shows "ends (swap_commit H X dg t vertical tb after nextSib st)
           (low P (st \<lparr> silent := True, timers := timers st @ [(30, ClearSilent)] \<rparr>))"
proof -
  let ?st4 = "st \<lparr> silent := True, timers := timers st @ [(30, ClearSilent)] \<rparr>"
  show ?thesis
    unfolding swap_commit_def
  proof (rule ends_andThen2 [where ?R1.0 = "quiet ?st4" and ?R2.0 = "low P"])
    show "ends (capture X ?st4) (quiet ?st4)" by (rule capture_quiet)
    show "\<And>b c. quiet ?st4 b \<Longrightarrow> low P b c \<Longrightarrow> low P ?st4 c" by (rule quiet_then_low)
    show "\<And>b. quiet ?st4 b \<Longrightarrow> low P ?st4 b" by (rule quiet_low)
    fix st5 :: gstate assume a5: "quiet ?st4 st5"
    have de: "dragEl st5 = Some dg" and t5: "parentNode (tree st5) t = Some (x_s X)"
      using a5 dg pt by (simp_all add: quiet_def)
    show "ends (andThen (if after \<and> nextSib = None then st_insertBefore st5 (x_s X) (Some dg) None
                   else (case parentNode (tree st5) t of
                           None \<Rightarrow> ok st5 ()
                         | Some tp \<Rightarrow> st_insertBefore st5 tp (Some dg) (if after then nextSib else Some t)))
            (\<lambda>st6 _.
               (let st7 = st6 \<lparr> parentEl := parentNode (tree st6) dg \<rparr>;
                    st8 = (case tb of
                             None \<Rightarrow> st7
                           | Some b \<Rightarrow>
                               if \<not> isCircumstantialInvert st7
                               then st7 \<lparr> targetMoveDistance :=
                                           \<bar>b - side1 vertical (getRect H (tree st7) t)\<bar> \<rparr>
                               else st7)
                in returning (completed H X (Some t) True (changed X st8))))) (low P st5)"
    proof (rule ends_andThen_low)
      show "ends (if after \<and> nextSib = None then st_insertBefore st5 (x_s X) (Some dg) None
                   else (case parentNode (tree st5) t of
                           None \<Rightarrow> ok st5 ()
                         | Some tp \<Rightarrow> st_insertBefore st5 tp (Some dg) (if after then nextSib else Some t)))
              (low P st5)"
        using de t5 P by (simp add: st_insertBefore_low)
      fix st6 :: gstate
      let ?st7 = "st6 \<lparr> parentEl := parentNode (tree st6) dg \<rparr>"
      let ?st8 = "case tb of
                             None \<Rightarrow> ?st7
                           | Some b \<Rightarrow>
                               if \<not> isCircumstantialInvert ?st7
                               then ?st7 \<lparr> targetMoveDistance :=
                                           \<bar>b - side1 vertical (getRect H (tree ?st7) t)\<bar> \<rparr>
                               else ?st7"
      have q8: "quiet st6 ?st8" by (simp add: quiet_def split: option.splits)
      have q: "quiet st6 (changed X ?st8)"
        using q8 quiet_changed [of ?st8 X] by (rule quiet_trans)
      show "ends (let st7 = st6 \<lparr> parentEl := parentNode (tree st6) dg \<rparr>;
                    st8 = (case tb of
                             None \<Rightarrow> st7
                           | Some b \<Rightarrow>
                               if \<not> isCircumstantialInvert st7
                               then st7 \<lparr> targetMoveDistance :=
                                           \<bar>b - side1 vertical (getRect H (tree st7) t)\<bar> \<rparr>
                               else st7)
                in returning (completed H X (Some t) True (changed X st8))) (low P st6)"
        unfolding Let_def using ends_quiet_then_low [OF q completed_low] by simp
    qed
  qed
qed

lemma quiet_swap_prepare [simp]: "quiet st (swap_prepare H X dg t vertical st)"
  by (simp add: swap_prepare_def quiet_def)

lemma swap_prepare_fields [simp]:
  "tree (swap_prepare H X dg t vertical st) = tree st"
  "dragEl (swap_prepare H X dg t vertical st) = dragEl st"
  "silent (swap_prepare H X dg t vertical st) = silent st"
  "timers (swap_prepare H X dg t vertical st) = timers st"
  by (simp_all add: swap_prepare_def)

text \<open>A swap either leaves the tree alone or ends with the guard set.\<close>

lemma dragover_swap_br:
  assumes P: "x_s X \<in> P" and pt: "parentNode (tree st) t = Some (x_s X)"
    and dg: "dragEl st = Some dg"
  shows "ends (dragover_swap H X dg t vertical st)
           (\<lambda>st'. br P st st' \<and> (tree st' = tree st \<and> silent st' = silent st \<or> guarded st'))"
proof -
  let ?st1 = "swap_prepare H X dg t vertical st"
  let ?dir = "swap_direction H X dg t vertical st"
  have q1: "quiet st ?st1" by simp
  show ?thesis
  proof (cases "?dir = 0 \<or> swap_sibling ?st1 dg ?dir = Some t")
    case True
    have "ends (completed H X (Some t) False ?st1) (quiet st)"
      using completed_False_quiet [of H X "Some t" ?st1]
      by (rule ends_weaken) (rule quiet_trans [OF q1])
    then have "ends (completed H X (Some t) False ?st1)
        (\<lambda>st'. br P st st' \<and> (tree st' = tree st \<and> silent st' = silent st \<or> guarded st'))"
      by (rule ends_weaken) (simp add: quiet_br, simp add: quiet_def)
    then show ?thesis using True by (simp add: dragover_swap_def Let_def)
  next
    case False
    let ?st2 = "?st1 \<lparr> lastTarget := Some t, lastDirection := Some ?dir \<rparr>"
    let ?mv = "call_onMove H X (Some t) (?dir = 1) ?st2"
    have "quiet ?st1 ?st2" by (simp add: quiet_def)
    with q1 have q2: "quiet st ?st2" by (rule quiet_trans)
    show ?thesis
    proof (cases "snd ?mv = MoveFalse")
      case True
      have b: "br P ?st2 (fst ?mv)" by (rule call_onMove_br)
      have "br P st (fst ?mv)" using q2 b by (rule quiet_then_br)
      moreover have "tree (fst ?mv) = tree st" "silent (fst ?mv) = silent st"
        by (subst call_onMove_state, simp)+
      ultimately show ?thesis using False True by (simp add: dragover_swap_def Let_def)
    next
      case pass: False
      have q3: "quiet st (fst ?mv)" using q2 call_onMove_pass [OF pass] by (rule quiet_trans)
      let ?st4 = "(fst ?mv) \<lparr> silent := True, timers := timers (fst ?mv) @ [(30, ClearSilent)] \<rparr>"
      have pt3: "parentNode (tree (fst ?mv)) t = Some (x_s X)" "dragEl (fst ?mv) = Some dg"
        using q3 pt dg by (simp_all add: quiet_def)
      have c: "ends (swap_commit H X dg t vertical
                 (if lastTarget st \<noteq> Some t then Some (side1 vertical (getRect H (tree st) t)) else None)
                 (if snd ?mv = MoveNumber 1 \<or> snd ?mv = MoveNumber (- 1)
                       then snd ?mv = MoveNumber 1 else ?dir = 1)
                 (nextElementSibling (tree ?st1) t) (fst ?mv)) (low P ?st4)"
        using P pt3 by (rule swap_commit_low)
      have s34: "struct P (fst ?mv) ?st4" "vetofree (fst ?mv) ?st4" by (simp_all add: struct_def)
      have "\<And>st'. low P ?st4 st' \<Longrightarrow> br P st st' \<and> guarded st'"
      proof
        fix st' assume l: "low P ?st4 st'"
        have "struct P (fst ?mv) st'" using s34(1) low_struct [OF l] by (rule struct_trans)
        moreover have "vetofree (fst ?mv) st'" using s34(2) low_vetofree [OF l] by (rule vetofree_trans)
        ultimately have "br P (fst ?mv) st'"
          by (simp add: br_def veto_safe_def vetofree_def)
        with q3 show "br P st st'" by (rule quiet_then_br)
        show "guarded st'" using l by (simp add: low_def guarded_def)
      qed
      then have "ends (swap_commit H X dg t vertical
                 (if lastTarget st \<noteq> Some t then Some (side1 vertical (getRect H (tree st) t)) else None)
                 (if snd ?mv = MoveNumber 1 \<or> snd ?mv = MoveNumber (- 1)
                       then snd ?mv = MoveNumber 1 else ?dir = 1)
                 (nextElementSibling (tree ?st1) t) (fst ?mv))
             (\<lambda>st'. br P st st' \<and> (tree st' = tree st \<and> silent st' = silent st \<or> guarded st'))"
        using c unfolding ends_def by blast
      then show ?thesis using False pass by (simp add: dragover_swap_def Let_def)
    qed
  qed
qed


lemma br_refl [simp]: "br P st st"
  by (simp add: br_def veto_safe_def)

lemma ends_quiet_br: "ends m (quiet st) \<Longrightarrow> ends m (br P st)"
  by (erule ends_weaken) (rule quiet_br)

lemma dragover_branches_br:
  assumes P: "x_s X \<in> P" and dg: "dragEl st = Some dg"
  shows "ends (dragover_branches H X dg target vertical st) (br P st)"
proof -
  let ?l = "lastChild (tree st) (Sortable_ghost st) (x_s X) (draggable (x_opts X))"
  let ?c1 = "case ?l of None \<Rightarrow> True
             | Some l \<Rightarrow> h_ghostIsLast H (tree st) (x_evt X) vertical (x_s X) \<and> \<not> animated (tree st) l"
  show ?thesis
  proof (cases ?c1)
    case True
    then show ?thesis using dragover_end_br [OF P, of H target ?l st]
      by (simp add: dragover_branches_def Let_def)
  next
    case c1: False
    show ?thesis
    proof (cases "h_ghostIsFirst H (tree st) (x_evt X) vertical (x_s X)")
      case True
      then show ?thesis using c1 dragover_start_br [OF P, of H target st]
        by (simp add: dragover_branches_def Let_def)
    next
      case c2: False
      show ?thesis
      proof (cases target)
        case None
        then show ?thesis using c1 c2 by (simp add: dragover_branches_def Let_def)
      next
        case (Some t)
        show ?thesis
        proof (cases "parentNode (tree st) t = Some (x_s X)")
          case True
          have "ends (dragover_swap H X dg t vertical st) (br P st)"
            using dragover_swap_br [OF P True dg, of H vertical]
            by (rule ends_weaken) simp
          then show ?thesis using c1 c2 Some True by (simp add: dragover_branches_def Let_def)
        next
          case False
          then show ?thesis using c1 c2 Some by (simp add: dragover_branches_def Let_def)
        qed
      qed
    qed
  qed
qed

lemma dragover_tail_quiet: "ends (dragover_tail H X target st) (quiet st)"
  using completed_False_quiet [of H X target st]
  by (auto simp: dragover_tail_def split: option.splits bool.splits)

lemma dragover_place_br:
  assumes P: "x_s X \<in> P" and r: "\<forall>r. rootEl st = Some r \<longrightarrow> r \<in> P"
  shows "ends (dragover_place H X target revert st) (br P st)"
proof (cases "dragEl st")
  case None
  then show ?thesis by (simp add: dragover_place_def)
next
  case (Some dg)
  let ?v = "getDirection H st (x_opts X) (x_evt X) target = ''vertical''"
  have rev: "ends (dragover_revert H X target st) (br P st)"
    using dragover_revert_low [OF r, of H X target] by (rule ends_weaken) (rule low_br)
  have "ends (andThen (dragover_branches H X dg target ?v st)
              (\<lambda>st3 out.
                 case out of
                   Returned v \<Rightarrow> ok st3 v
                 | FellThrough target' \<Rightarrow> dragover_tail H X target' st3)) (br P st)"
  proof (rule ends_andThen2 [where ?R1.0 = "br P st" and ?R2.0 = quiet])
    show "ends (dragover_branches H X dg target ?v st) (br P st)"
      using P Some by (rule dragover_branches_br)
    show "\<And>b c. br P st b \<Longrightarrow> quiet b c \<Longrightarrow> br P st c" by (rule br_then_quiet)
    show "\<And>b. br P st b \<Longrightarrow> br P st b" .
    fix st1 :: gstate and v :: branch_out
    show "ends (case v of Returned v \<Rightarrow> ok st1 v
                | FellThrough target' \<Rightarrow> dragover_tail H X target' st1) (quiet st1)"
      by (cases v) (simp_all add: dragover_tail_quiet)
  qed
  with rev Some show ?thesis by (simp add: dragover_place_def)
qed

lemma dragover_guard_quiet: "quiet st (fst (dragover_guard H X st))"
  by (simp add: dragover_guard_def Let_def split: option.splits)

lemma onDragOver_br:
  assumes P: "s \<in> P" and r: "\<forall>r. rootEl st = Some r \<longrightarrow> r \<in> P"
  shows "ends (onDragOver H st s evt) (br P st)"
proof (cases "expando st s")
  case None
  then show ?thesis by (simp add: onDragOver_def)
next
  case (Some this)
  let ?X = "dragover_ctx_of st s this evt"
  have xs: "x_s ?X \<in> P" using P by (simp add: dragover_ctx_of_def)
  let ?st0 = "st \<lparr> ignoreNextClick := False \<rparr>"
  let ?g = "dragover_guard H ?X ?st0"
  have q0: "quiet st ?st0" by (simp add: quiet_def)
  have qg: "quiet st (fst ?g)" using q0 dragover_guard_quiet [of ?st0 H ?X] by (rule quiet_trans)
  have rg: "\<forall>r. rootEl (fst ?g) = Some r \<longrightarrow> r \<in> P" using qg r by (simp add: quiet_def)
  have place: "ends (dragover_place H ?X target rv (fst ?g)) (br P st)" for target rv
    using dragover_place_br [OF xs rg, of H target rv]
    by (rule ends_weaken) (rule quiet_then_br [OF qg])
  have comp: "ends (completed H ?X target False st) (br P st)" for target
    using completed_False_quiet [of H ?X target st] by (rule ends_quiet_br)
  have gq: "br P st (fst ?g)" using qg by (rule quiet_br)
  show ?thesis
    using Some place comp gq
    by (simp add: onDragOver_def Let_def split: option.splits)
qed

section \<open>Where the clone goes\<close>

lemma calm_refl [simp]: "calm s st st" by (simp add: calm_def)

lemma calm_trans: "calm s a b \<Longrightarrow> calm s b c \<Longrightarrow> calm s a c"
  by (auto simp: calm_def)

lemma keeps_refl [simp]: "keeps X st st" by (simp add: keeps_def)

lemma keeps_trans:
  assumes ab: "keeps X a b" and bc: "keeps X b c"
  shows "keeps X a c"
  unfolding keeps_def
proof (intro conjI allI impI)
  show "cloneEl c = cloneEl a" "dragEl c = dragEl a" "rootEl c = rootEl a"
    "lastPutMode_of c (x_s X) = lastPutMode_of a (x_s X)"
    using ab bc by (simp_all add: keeps_def)
  fix x assume x: "cloneEl a = Some x" "Some x \<noteq> dragEl a"
  have cp: "clone_pull X b = clone_pull X a" using ab by (simp add: keeps_def clone_pull_def)
  have r: "rootEl b = rootEl a" using ab by (simp add: keeps_def)
  have xb: "cloneEl b = Some x" "Some x \<noteq> dragEl b" using ab x by (simp_all add: keeps_def)
  show "parentNode (tree c) x = parentNode (tree a) x \<or>
           (if clone_pull X a then rootEl a \<noteq> None \<and> parentNode (tree c) x = rootEl a
            else parentNode (tree c) x = None)"
  proof (cases "clone_pull X a")
    case True
    then have tb: "clone_pull X b" using cp by simp
    have 1: "parentNode (tree b) x = parentNode (tree a) x \<or>
             (rootEl a \<noteq> None \<and> parentNode (tree b) x = rootEl a)"
      using ab x True by (simp add: keeps_def)
    have 2: "parentNode (tree c) x = parentNode (tree b) x \<or>
             (rootEl b \<noteq> None \<and> parentNode (tree c) x = rootEl b)"
      using bc xb tb by (simp add: keeps_def)
    from 1 2 r True show ?thesis by auto
  next
    case False
    then have fb: "\<not> clone_pull X b" using cp by simp
    have 1: "parentNode (tree b) x = parentNode (tree a) x \<or> parentNode (tree b) x = None"
      using ab x False by (simp add: keeps_def)
    have 2: "parentNode (tree c) x = parentNode (tree b) x \<or> parentNode (tree c) x = None"
      using bc xb fb by (simp add: keeps_def)
    from 1 2 False show ?thesis by auto
  qed
qed

lemma calm_keeps: "calm (x_s X) a b \<Longrightarrow> keeps X a b"
  by (simp add: calm_def keeps_def)

lemma calm_then_keeps: "calm (x_s X) a b \<Longrightarrow> keeps X b c \<Longrightarrow> keeps X a c"
  by (rule keeps_trans [OF calm_keeps])

lemma ends_calm_keeps: "ends m (calm (x_s X) st) \<Longrightarrow> ends m (keeps X st)"
  by (erule ends_weaken) (rule calm_keeps)

lemma ends_calm_then_keeps: "calm (x_s X) a b \<Longrightarrow> ends m (keeps X b) \<Longrightarrow> ends m (keeps X a)"
  unfolding ends_def by (blast intro: calm_then_keeps)

lemma ends_calm_then_calm: "calm s a b \<Longrightarrow> ends m (calm s b) \<Longrightarrow> ends m (calm s a)"
  unfolding ends_def by (blast intro: calm_trans)

lemma ends_andThen_keeps:
  assumes "ends m (keeps X st)"
    and "\<And>st1 v. keeps X st st1 \<Longrightarrow> ends (f st1 v) (keeps X st1)"
  shows "ends (andThen m f) (keeps X st)"
  using assms(1) assms(2) keeps_trans by (rule ends_andThen)

lemma ends_andThen_calm:
  assumes "ends m (calm s st)"
    and "\<And>st1 v. calm s st st1 \<Longrightarrow> ends (f st1 v) (calm s st1)"
  shows "ends (andThen m f) (calm s st)"
  using assms(1) assms(2) calm_trans by (rule ends_andThen)

lemma lastPutMode_of_upd:
  "(\<And>i. lastPutMode (f i) = lastPutMode i) \<Longrightarrow>
   lastPutMode_of (upd_sortable st a f) s = lastPutMode_of st s"
  by (simp add: lastPutMode_of_def upd_sortable_def split: option.splits)

lemma calm_upd_ignore [simp]:
  "calm s st (upd_sortable st a (\<lambda>i. i \<lparr> ignoreWhileAnimating := v \<rparr>))"
  by (simp add: calm_def lastPutMode_of_upd) (simp add: upd_sortable_def)

lemma calm_effect: "\<not> is_tree_op e \<Longrightarrow> calm s st (st \<lparr> effects := effects st @ [e] \<rparr>)"
  by (simp add: calm_def lastPutMode_of_def)

lemma captureAnimationState_calm: "ends (captureAnimationState st a) (calm s st)"
  by (auto simp: captureAnimationState_def ends_def calm_effect split: option.splits)

lemma capture_calm: "ends (capture X st) (calm s st)"
  unfolding capture_def
  by (rule ends_andThen_calm)
     (auto simp: captureAnimationState_calm split: option.splits)

lemma animate_calm: "ends (animate st a) (calm s st)"
  by (auto simp: animate_def calm_effect split: option.splits)

lemma isOutsideThisEl_calm: "ends (isOutsideThisEl st p t) (calm s st)"
  by (auto simp: isOutsideThisEl_def calm_def lastPutMode_of_def split: option.splits)

lemma calm_animateAll [simp]: "calm s st (animateAll st a)"
  by (auto simp: animateAll_def calm_effect split: option.splits)

lemma calm_animateAll_callback [simp]: "calm s st (animateAll_callback H st a)"
proof -
  have 1: "calm s st (st \<lparr> effects := effects st @ [AnimateAll a] \<rparr>)" by (simp add: calm_effect)
  have 2: "calm s (st \<lparr> effects := effects st @ [AnimateAll a] \<rparr>)
          (upd_sortable (st \<lparr> effects := effects st @ [AnimateAll a] \<rparr>) a
             (\<lambda>i. i \<lparr> ignoreWhileAnimating := None \<rparr>))"
    by (rule calm_upd_ignore)
  have 3: "calm s st (upd_sortable (st \<lparr> effects := effects st @ [AnimateAll a] \<rparr>) a
             (\<lambda>i. i \<lparr> ignoreWhileAnimating := None \<rparr>))"
    using 1 2 by (rule calm_trans)
  show ?thesis
    using 1 3 by (simp add: animateAll_callback_def Let_def split: option.splits)
qed

lemma calm_update_putSortable [simp]: "calm s st (update_putSortable a st)"
  by (simp add: update_putSortable_def calm_def lastPutMode_of_def)

lemma calm_mark_ignore [simp]: "calm s st (mark_ignore X target st)"
  by (simp add: mark_ignore_def)

lemma completed_animation_calm: "ends (completed_animation H X st) (calm s st)"
proof -
  let ?st4 = "animateAll_callback H st (x_s X)"
  have q4: "calm s st ?st4" by simp
  have q5: "calm s st (upd_sortable (animateAll ?st4 f) f (\<lambda>i. i \<lparr> ignoreWhileAnimating := None \<rparr>))" for f
    using q4 calm_animateAll [of s ?st4 f]
      calm_upd_ignore [of s "animateAll ?st4 f" f None]
    by (blast intro: calm_trans)
  show ?thesis
  proof (cases "x_from X")
    case None
    then show ?thesis using q4 by (simp add: completed_animation_def Let_def)
  next
    case (Some f)
    then show ?thesis using q4 q5 [of f] by (simp add: completed_animation_def Let_def)
  qed
qed

lemma forget_lastTarget_calm: "forget_lastTarget X target st = Inr st1 \<Longrightarrow> calm s st st1"
  by (auto simp: forget_lastTarget_def calm_def lastPutMode_of_def split: if_splits)

lemma completed_outside_calm: "ends (completed_outside X target insertion st) (calm s st)"
proof (cases "holder st")
  case None
  then show ?thesis by (simp add: completed_outside_def)
next
  case (Some p)
  have "ends (andThen (isOutsideThisEl st p (evt_target (x_evt X)))
                  (\<lambda>st2 _.
                     ok (if \<not> insertion
                         then st2 \<lparr> effects := effects st2 @ [NearestEmptyInsertDetect] \<rparr>
                         else st2) (RBool True))) (calm s st)"
    by (rule ends_andThen_calm) (auto simp: isOutsideThisEl_calm calm_effect)
  then show ?thesis using Some by (simp add: completed_outside_def)
qed

lemma completed_rest_calm: "ends (completed_rest X target insertion st) (calm s st)"
proof (cases "forget_lastTarget X target st")
  case (Inl e)
  then show ?thesis by (simp add: completed_rest_def)
next
  case (Inr st1)
  have q: "calm s st st1" using Inr by (rule forget_lastTarget_calm)
  have "ends (completed_outside X target insertion st1) (calm s st1)"
    by (rule completed_outside_calm)
  then have "ends (completed_outside X target insertion st1) (calm s st)"
    by (rule ends_calm_then_calm [OF q])
  then show ?thesis using Inr by (simp add: completed_rest_def)
qed

lemma completed_False_calm: "ends (completed H X target False st) (calm s st)"
  unfolding completed_def
  by (rule ends_andThen_calm) (auto simp: completed_rest_calm)

lemma calm_changed [simp]: "calm s st (changed X st)"
  by (simp add: changed_def calm_def lastPutMode_of_def)

lemma calm_parentEl [simp]: "calm s st (st \<lparr> parentEl := v \<rparr>)"
  by (simp add: calm_def lastPutMode_of_def)

lemma calm_swap_prepare [simp]: "calm s st (swap_prepare H X dg t vertical st)"
  by (simp add: swap_prepare_def calm_def lastPutMode_of_def)

lemma call_onMove_calm [simp]: "calm s st (fst (call_onMove H X t a st))"
  by (subst call_onMove_state) (simp add: calm_effect)

lemma dragover_tail_calm: "ends (dragover_tail H X target st) (calm s st)"
  using completed_False_calm [of H X target st s]
  by (auto simp: dragover_tail_def split: option.splits bool.splits)

lemma st_insertBefore_keeps:
  assumes "node = dragEl st \<or> (node = cloneEl st \<and> clone_pull X st \<and> rootEl st = Some p)"
  shows "ends (st_insertBefore st p node ref) (keeps X st)"
  unfolding ends_def
proof (intro allI impI)
  fix st' r
  assume run: "st_insertBefore st p node ref = Some (st', r)"
  show "keeps X st st'"
  proof (cases "st' = st")
    case True
    then show ?thesis by simp
  next
    case False
    with run obtain n d' where n: "node = Some n"
      and ins: "insertBefore (tree st) p (Some n) ref = Some (Inr d')"
      and st': "st' = st \<lparr> tree := d', effects := effects st @ [DomInsertBefore p n ref] \<rparr>"
      by (auto simp: st_insertBefore_def split: option.splits sum.splits)
    from insertBefore_cases [OF ins] obtain r' where d': "d' = attach (detach (tree st) n) p n r'" ..
    have pn: "parentNode (tree st') = (parentNode (tree st))(n := Some p)"
      by (simp add: st' d' parentNode_reinsert)
    have hd: "cloneEl st' = cloneEl st" "dragEl st' = dragEl st" "rootEl st' = rootEl st"
      "lastPutMode_of st' (x_s X) = lastPutMode_of st (x_s X)"
      by (simp_all add: st' lastPutMode_of_def)
    show ?thesis
      unfolding keeps_def
    proof (intro conjI allI impI)
      fix c assume c: "cloneEl st = Some c" "Some c \<noteq> dragEl st"
      show "parentNode (tree st') c = parentNode (tree st) c \<or>
           (if clone_pull X st then rootEl st \<noteq> None \<and> parentNode (tree st') c = rootEl st
            else parentNode (tree st') c = None)"
        using assms n c by (auto simp: pn)
    qed (rule hd)+
  qed
qed

lemma insert_under_root_keeps:
  assumes "node = dragEl st \<or> (node = cloneEl st \<and> clone_pull X st)"
  shows "ends (insert_under_root st node ref) (keeps X st)"
proof (cases "rootEl st")
  case None
  then show ?thesis by (simp add: insert_under_root_def)
next
  case (Some r)
  with assms show ?thesis
    by (simp add: insert_under_root_def st_insertBefore_keeps)
qed

lemma remove_from_parent_clone_keeps:
  "\<not> clone_pull X st \<Longrightarrow> keeps X st (remove_from_parent st (cloneEl st))"
  by (auto simp: keeps_def remove_from_parent_def parentNode_detach lastPutMode_of_def
           clone_pull_def split: option.splits)

lemma keeps_css: "keeps X st (st \<lparr> tree := css_set_display (tree st) e v \<rparr>)"
  by (simp add: keeps_def lastPutMode_of_def)

lemma keeps_cloneHidden: "keeps X a b \<Longrightarrow> keeps X a (b \<lparr> cloneHidden := v \<rparr>)"
  unfolding keeps_def by (simp add: lastPutMode_of_def cong: if_cong)

lemma hideClone_keeps:
  assumes np: "\<not> clone_pull X st"
  shows "ends (hideClone st a) (keeps X st)"
proof -
  let ?st1 = "st \<lparr> tree := css_set_display (tree st) (cloneEl st) ''none'' \<rparr>"
  have l1: "keeps X st ?st1" by (rule keeps_css)
  have "\<not> clone_pull X ?st1" using np by (simp add: clone_pull_def lastPutMode_of_def)
  then have l2: "keeps X ?st1 (remove_from_parent ?st1 (cloneEl ?st1))"
    by (rule remove_from_parent_clone_keeps)
  have l3: "keeps X st (remove_from_parent ?st1 (cloneEl ?st1))"
    using l1 l2 by (rule keeps_trans)
  have l4: "keeps X st ((remove_from_parent ?st1 (cloneEl ?st1)) \<lparr> cloneHidden := True \<rparr>)"
    using l3 by (rule keeps_cloneHidden)
  have l5: "keeps X st (?st1 \<lparr> cloneHidden := True \<rparr>)"
    using l1 by (rule keeps_cloneHidden)
  show ?thesis
    using l1 l4 l5
    by (auto simp: hideClone_def Let_def split: option.splits)
qed

lemma showClone_keeps:
  assumes no: "\<not> x_isOwner X"
  shows "ends (showClone st a (x_s X)) (keeps X st)"
proof (cases "expando st a")
  case None
  then show ?thesis by (simp add: showClone_def)
next
  case (Some this)
  show ?thesis
  proof (cases "lastPutMode_of st (x_s X) \<noteq> Some PullClone")
    case True
    then have "\<not> clone_pull X st" by (simp add: clone_pull_def)
    then have "ends (hideClone st a) (keeps X st)" by (rule hideClone_keeps)
    then show ?thesis using Some True by (simp add: showClone_def)
  next
    case mode: False
    then have cp: "clone_pull X st" using no by (simp add: clone_pull_def)
    show ?thesis
    proof (cases "\<not> cloneHidden st \<or> eventCanceled st \<or> dragEl st = None")
      case True
      then show ?thesis using Some mode by (auto simp: showClone_def)
    next
      case False
      then obtain dg where dg: "dragEl st = Some dg" by auto
      let ?ins = "if parentNode (tree st) dg = rootEl st \<and> \<not> revertClone (group (options this))
                    then insert_under_root st (cloneEl st) (Some dg)
                    else if nextEl st \<noteq> None then insert_under_root st (cloneEl st) (nextEl st)
                    else insert_under_root st (cloneEl st) None"
      have i: "ends ?ins (keeps X st)" using cp by (simp add: insert_under_root_keeps)
      have rest: "\<And>st1 v. keeps X st st1 \<Longrightarrow>
        ends (andThen (if revertClone (group (options this)) then animate st1 a else ok st1 ())
                (\<lambda>st2 _. ok (st2 \<lparr> tree := css_set_display (tree st2) (cloneEl st2) [],
                                     cloneHidden := False \<rparr>) ())) (keeps X st1)"
      proof (rule ends_andThen_keeps)
        fix st1 :: gstate
        show "ends (if revertClone (group (options this)) then animate st1 a else ok st1 ()) (keeps X st1)"
          using animate_calm [of st1 a "x_s X", THEN ends_calm_keeps] by simp
        fix st2 :: gstate
        show "ends (ok (st2 \<lparr> tree := css_set_display (tree st2) (cloneEl st2) [],
                                     cloneHidden := False \<rparr>) ()) (keeps X st2)"
          by (simp add: keeps_def lastPutMode_of_def)
      qed
      have "ends (andThen ?ins (\<lambda>st1 _.
                      andThen (if revertClone (group (options this)) then animate st1 a else ok st1 ())
                        (\<lambda>st2 _.
                           ok (st2 \<lparr> tree := css_set_display (tree st2) (cloneEl st2) [],
                                     cloneHidden := False \<rparr>) ()))) (keeps X st)"
        using i rest by (rule ends_andThen_keeps)
      then show ?thesis using False mode Some dg by (simp add: showClone_def)
    qed
  qed
qed

lemma completed_insertion_keeps: "ends (completed_insertion H X target st) (keeps X st)"
  unfolding completed_insertion_def
proof (rule ends_andThen_keeps)
  have h: "x_isOwner X \<Longrightarrow> ends (hideClone st a) (keeps X st)" for a
    by (rule hideClone_keeps) (simp add: clone_pull_def)
  show "ends (case x_active X of None \<Rightarrow> ok st ()
        | Some a \<Rightarrow> if x_isOwner X then hideClone st a else showClone st a (x_s X)) (keeps X st)"
    by (simp add: h showClone_keeps split: option.splits)
  fix st1 :: gstate
  let ?st3 = "mark_ignore X target (update_putSortable (x_s X) st1)"
  have q: "calm (x_s X) st1 ?st3"
    using calm_update_putSortable [of "x_s X" st1 "x_s X"]
      calm_mark_ignore [of "x_s X" "update_putSortable (x_s X) st1" X target]
    by (rule calm_trans)
  have "ends (completed_animation H X ?st3) (calm (x_s X) ?st3)" by (rule completed_animation_calm)
  then have "ends (completed_animation H X ?st3) (calm (x_s X) st1)"
    by (rule ends_calm_then_calm [OF q])
  then show "ends (completed_animation H X ?st3) (keeps X st1)" by (rule ends_calm_keeps)
qed

lemma completed_keeps: "ends (completed H X target insertion st) (keeps X st)"
  unfolding completed_def
proof (rule ends_andThen_keeps)
  show "ends (if insertion then completed_insertion H X target st else ok st ()) (keeps X st)"
    by (simp add: completed_insertion_keeps)
  fix st1 :: gstate
  show "ends (completed_rest X target insertion st1) (keeps X st1)"
    by (rule ends_calm_keeps) (rule completed_rest_calm)
qed

lemma capture_keeps: "ends (capture X st) (keeps s st)"
  by (rule ends_calm_keeps) (rule capture_calm)

lemma dragover_revert_keeps:
  assumes own: "x_isOwner X"
  shows "ends (dragover_revert H X target st) (keeps X st)"
proof -
  let ?st1 = "st \<lparr> parentEl := rootEl st \<rparr>"
  have "ends (dragover_revert H X target st) (keeps X ?st1)"
    unfolding dragover_revert_def
  proof (rule ends_andThen_keeps)
    show "ends (capture X ?st1) (keeps X ?st1)" by (rule capture_keeps)
    fix st2 :: gstate
    show "ends (andThen (hideClone st2 (x_s X))
            (\<lambda>st3 _. andThen (if \<not> eventCanceled st3 then insert_under_root st3 (dragEl st3) (nextEl st3)
                        else ok st3 ())
                 (\<lambda>st4 _. completed H X target True st4))) (keeps X st2)"
    proof (rule ends_andThen_keeps)
      show "ends (hideClone st2 (x_s X)) (keeps X st2)"
        by (rule hideClone_keeps) (simp add: own clone_pull_def)
      fix st3 :: gstate
      show "ends (andThen (if \<not> eventCanceled st3 then insert_under_root st3 (dragEl st3) (nextEl st3)
                        else ok st3 ())
                 (\<lambda>st4 _. completed H X target True st4)) (keeps X st3)"
      proof (rule ends_andThen_keeps)
        show "ends (if \<not> eventCanceled st3 then insert_under_root st3 (dragEl st3) (nextEl st3)
                        else ok st3 ()) (keeps X st3)"
          by (simp add: insert_under_root_keeps)
        fix st4 :: gstate
        show "ends (completed H X target True st4) (keeps X st4)" by (rule completed_keeps)
      qed
    qed
  qed
  then show ?thesis by (rule ends_calm_then_keeps [rotated]) simp
qed

lemma place_and_complete_keeps:
  "ends (andThen (capture X st)
                (\<lambda>st2 _.
                   andThen (st_insertBefore st2 p (dragEl st2) (ref st2))
                     (\<lambda>st3 _. returning (completed H X tg True (changed X (st3 \<lparr> parentEl := Some s \<rparr>))))))
           (keeps X st)"
proof (rule ends_andThen_keeps)
  show "ends (capture X st) (keeps X st)" by (rule capture_keeps)
  fix st2 :: gstate
  show "ends (andThen (st_insertBefore st2 p (dragEl st2) (ref st2))
                     (\<lambda>st3 _. returning (completed H X tg True (changed X (st3 \<lparr> parentEl := Some s \<rparr>)))))
         (keeps X st2)"
  proof (rule ends_andThen_keeps)
    show "ends (st_insertBefore st2 p (dragEl st2) (ref st2)) (keeps X st2)"
      by (simp add: st_insertBefore_keeps)
    fix st3 :: gstate
    have q: "calm (x_s X) st3 (changed X (st3 \<lparr> parentEl := Some s \<rparr>))"
      using calm_parentEl [of "x_s X" st3 "Some s"] calm_changed [of "x_s X" "st3 \<lparr> parentEl := Some s \<rparr>" X]
      by (rule calm_trans)
    show "ends (returning (completed H X tg True (changed X (st3 \<lparr> parentEl := Some s \<rparr>)))) (keeps X st3)"
      using ends_calm_then_keeps [OF q completed_keeps] by simp
  qed
qed

lemma dragover_end_keeps:
  "ends (dragover_end H X target elLastChild st) (keeps X st)"
proof (cases "elLastChild = dragEl st")
  case True
  then show ?thesis
    using completed_keeps [of H X target False st]
    by (simp add: dragover_end_def)
next
  case False
  let ?t1 = "if elLastChild \<noteq> None \<and> Some (x_s X) = evt_target (x_evt X) then elLastChild else target"
  let ?mv = "call_onMove H X ?t1 (?t1 \<noteq> None) st"
  have q: "calm (x_s X) st (fst ?mv)" by (rule call_onMove_calm)
  show ?thesis
  proof (cases "snd ?mv = MoveFalse")
    case True
    then show ?thesis using False calm_keeps [OF q]
      by (simp add: dragover_end_def Let_def)
  next
    case pass: False
    have "ends (andThen (capture X (fst ?mv))
                (\<lambda>st2 _.
                   andThen (st_insertBefore st2 (x_s X) (dragEl st2)
                              (case elLastChild of None \<Rightarrow> None | Some l \<Rightarrow> nextSibling (tree st2) l))
                     (\<lambda>st3 _.
                        returning (completed H X ?t1 True
                                     (changed X (st3 \<lparr> parentEl := Some (x_s X) \<rparr>))))))
            (keeps X (fst ?mv))"
      by (rule place_and_complete_keeps)
    then have "ends (dragover_end H X target elLastChild st) (keeps X (fst ?mv))"
      using False pass by (simp add: dragover_end_def Let_def)
    then show ?thesis by (rule ends_calm_then_keeps [OF q])
  qed
qed

lemma dragover_start_keeps:
  "ends (dragover_start H X target st) (keeps X st)"
proof (cases "getChild st (x_s X) 0 (x_opts X) True")
  case None
  then show ?thesis by (simp add: dragover_start_def)
next
  case (Some firstChild)
  show ?thesis
  proof (cases "firstChild = dragEl st")
    case True
    then show ?thesis
      using Some completed_keeps [of H X target False st]
      by (simp add: dragover_start_def)
  next
    case False
    show ?thesis
    proof (cases firstChild)
      case None
      then show ?thesis using Some False by (simp add: dragover_start_def)
    next
      case fc: (Some fc)
      let ?mv = "call_onMove H X (Some fc) False st"
      have q: "calm (x_s X) st (fst ?mv)" by (rule call_onMove_calm)
      show ?thesis
      proof (cases "snd ?mv = MoveFalse")
        case True
        then show ?thesis using Some False fc calm_keeps [OF q]
          by (simp add: dragover_start_def Let_def)
      next
        case pass: False
        have "ends (andThen (capture X (fst ?mv))
                (\<lambda>st2 _.
                   andThen (st_insertBefore st2 (x_s X) (dragEl st2) (Some fc))
                     (\<lambda>st3 _.
                        returning (completed H X (Some fc) True
                                     (changed X (st3 \<lparr> parentEl := Some (x_s X) \<rparr>))))))
            (keeps X (fst ?mv))"
          by (rule place_and_complete_keeps [where ref = "\<lambda>_. Some fc"])
        then have "ends (dragover_start H X target st) (keeps X (fst ?mv))"
          using Some False fc pass by (simp add: dragover_start_def Let_def)
        then show ?thesis by (rule ends_calm_then_keeps [OF q])
      qed
    qed
  qed
qed


lemma swap_commit_keeps:
  assumes dg: "dragEl st = Some dg"
  shows "ends (swap_commit H X dg t vertical tb after nextSib st) (keeps X st)"
proof -
  let ?st4 = "st \<lparr> silent := True, timers := timers st @ [(30, ClearSilent)] \<rparr>"
  have c4: "calm (x_s X) st ?st4" by (simp add: calm_def lastPutMode_of_def)
  have "ends (swap_commit H X dg t vertical tb after nextSib st) (keeps X ?st4)"
    unfolding swap_commit_def
  proof (rule ends_andThen_keeps)
    show "ends (capture X ?st4) (keeps X ?st4)" by (rule capture_keeps)
    fix st5 :: gstate assume a5: "keeps X ?st4 st5"
    have de: "dragEl st5 = Some dg" using a5 dg by (simp add: keeps_def)
    show "ends (andThen (if after \<and> nextSib = None then st_insertBefore st5 (x_s X) (Some dg) None
                   else (case parentNode (tree st5) t of
                           None \<Rightarrow> ok st5 ()
                         | Some tp \<Rightarrow> st_insertBefore st5 tp (Some dg) (if after then nextSib else Some t)))
            (\<lambda>st6 _.
               (let st7 = st6 \<lparr> parentEl := parentNode (tree st6) dg \<rparr>;
                    st8 = (case tb of
                             None \<Rightarrow> st7
                           | Some b \<Rightarrow>
                               if \<not> isCircumstantialInvert st7
                               then st7 \<lparr> targetMoveDistance :=
                                           \<bar>b - side1 vertical (getRect H (tree st7) t)\<bar> \<rparr>
                               else st7)
                in returning (completed H X (Some t) True (changed X st8))))) (keeps X st5)"
    proof (rule ends_andThen_keeps)
      show "ends (if after \<and> nextSib = None then st_insertBefore st5 (x_s X) (Some dg) None
                   else (case parentNode (tree st5) t of
                           None \<Rightarrow> ok st5 ()
                         | Some tp \<Rightarrow> st_insertBefore st5 tp (Some dg) (if after then nextSib else Some t)))
              (keeps X st5)"
        using de by (simp add: st_insertBefore_keeps split: option.splits)
      fix st6 :: gstate
      let ?st7 = "st6 \<lparr> parentEl := parentNode (tree st6) dg \<rparr>"
      let ?st8 = "case tb of
                             None \<Rightarrow> ?st7
                           | Some b \<Rightarrow>
                               if \<not> isCircumstantialInvert ?st7
                               then ?st7 \<lparr> targetMoveDistance :=
                                           \<bar>b - side1 vertical (getRect H (tree ?st7) t)\<bar> \<rparr>
                               else ?st7"
      have q8: "calm (x_s X) st6 ?st8" by (simp add: calm_def lastPutMode_of_def split: option.splits)
      have q: "calm (x_s X) st6 (changed X ?st8)"
        using q8 calm_changed [of "x_s X" ?st8 X] by (rule calm_trans)
      show "ends (let st7 = st6 \<lparr> parentEl := parentNode (tree st6) dg \<rparr>;
                    st8 = (case tb of
                             None \<Rightarrow> st7
                           | Some b \<Rightarrow>
                               if \<not> isCircumstantialInvert st7
                               then st7 \<lparr> targetMoveDistance :=
                                           \<bar>b - side1 vertical (getRect H (tree st7) t)\<bar> \<rparr>
                               else st7)
                in returning (completed H X (Some t) True (changed X st8))) (keeps X st6)"
        unfolding Let_def using ends_calm_then_keeps [OF q completed_keeps] by simp
    qed
  qed
  then show ?thesis by (rule ends_calm_then_keeps [OF c4])
qed

lemma dragover_swap_keeps:
  assumes dg: "dragEl st = Some dg"
  shows "ends (dragover_swap H X dg t vertical st) (keeps X st)"
proof -
  let ?st1 = "swap_prepare H X dg t vertical st"
  let ?dir = "swap_direction H X dg t vertical st"
  have q1: "calm (x_s X) st ?st1" by simp
  show ?thesis
  proof (cases "?dir = 0 \<or> swap_sibling ?st1 dg ?dir = Some t")
    case True
    have "ends (completed H X (Some t) False ?st1) (keeps X st)"
      using q1 completed_keeps [of H X "Some t" False ?st1]
      by (rule ends_calm_then_keeps)
    then show ?thesis using True by (simp add: dragover_swap_def Let_def)
  next
    case False
    let ?st2 = "?st1 \<lparr> lastTarget := Some t, lastDirection := Some ?dir \<rparr>"
    let ?mv = "call_onMove H X (Some t) (?dir = 1) ?st2"
    have "calm (x_s X) ?st1 ?st2" by (simp add: calm_def lastPutMode_of_def)
    with q1 have q2: "calm (x_s X) st ?st2" by (rule calm_trans)
    have q3: "calm (x_s X) st (fst ?mv)"
      using q2 call_onMove_calm [of "x_s X" ?st2 H X "Some t" "?dir = 1"] by (rule calm_trans)
    show ?thesis
    proof (cases "snd ?mv = MoveFalse")
      case True
      then show ?thesis using False calm_keeps [OF q3] by (simp add: dragover_swap_def Let_def)
    next
      case pass: False
      have d3: "dragEl (fst ?mv) = Some dg" using q3 dg by (simp add: calm_def)
      have c: "ends (swap_commit H X dg t vertical
                 (if lastTarget st \<noteq> Some t then Some (side1 vertical (getRect H (tree st) t)) else None)
                 (if snd ?mv = MoveNumber 1 \<or> snd ?mv = MoveNumber (- 1)
                       then snd ?mv = MoveNumber 1 else ?dir = 1)
                 (nextElementSibling (tree ?st1) t) (fst ?mv)) (keeps X (fst ?mv))"
        using d3 by (rule swap_commit_keeps)
      have "ends (swap_commit H X dg t vertical
                 (if lastTarget st \<noteq> Some t then Some (side1 vertical (getRect H (tree st) t)) else None)
                 (if snd ?mv = MoveNumber 1 \<or> snd ?mv = MoveNumber (- 1)
                       then snd ?mv = MoveNumber 1 else ?dir = 1)
                 (nextElementSibling (tree ?st1) t) (fst ?mv)) (keeps X st)"
        using q3 c by (rule ends_calm_then_keeps)
      then show ?thesis using False pass by (simp add: dragover_swap_def Let_def)
    qed
  qed
qed

lemma dragover_branches_keeps:
  assumes dg: "dragEl st = Some dg"
  shows "ends (dragover_branches H X dg target vertical st) (keeps X st)"
proof -
  let ?l = "lastChild (tree st) (Sortable_ghost st) (x_s X) (draggable (x_opts X))"
  let ?c1 = "case ?l of None \<Rightarrow> True
             | Some l \<Rightarrow> h_ghostIsLast H (tree st) (x_evt X) vertical (x_s X) \<and> \<not> animated (tree st) l"
  show ?thesis
  proof (cases ?c1)
    case True
    then show ?thesis using dragover_end_keeps [of H X target ?l st]
      by (simp add: dragover_branches_def Let_def)
  next
    case c1: False
    show ?thesis
    proof (cases "h_ghostIsFirst H (tree st) (x_evt X) vertical (x_s X)")
      case True
      then show ?thesis using c1 dragover_start_keeps [of H X target st]
        by (simp add: dragover_branches_def Let_def)
    next
      case c2: False
      show ?thesis
      proof (cases target)
        case None
        then show ?thesis using c1 c2 by (simp add: dragover_branches_def Let_def)
      next
        case (Some t)
        show ?thesis
        proof (cases "parentNode (tree st) t = Some (x_s X)")
          case True
          then show ?thesis using c1 c2 Some dragover_swap_keeps [OF dg, of H X t vertical]
            by (simp add: dragover_branches_def Let_def)
        next
          case False
          then show ?thesis using c1 c2 Some by (simp add: dragover_branches_def Let_def)
        qed
      qed
    qed
  qed
qed

lemma dragover_place_keeps:
  assumes own: "revert \<Longrightarrow> x_isOwner X"
  shows "ends (dragover_place H X target revert st) (keeps X st)"
proof (cases "dragEl st")
  case None
  then show ?thesis by (simp add: dragover_place_def)
next
  case (Some dg)
  let ?v = "getDirection H st (x_opts X) (x_evt X) target = ''vertical''"
  have rev: "revert \<Longrightarrow> ends (dragover_revert H X target st) (keeps X st)"
    using own by (rule dragover_revert_keeps)
  have "ends (andThen (dragover_branches H X dg target ?v st)
              (\<lambda>st3 out.
                 case out of
                   Returned v \<Rightarrow> ok st3 v
                 | FellThrough target' \<Rightarrow> dragover_tail H X target' st3)) (keeps X st)"
  proof (rule ends_andThen_keeps)
    show "ends (dragover_branches H X dg target ?v st) (keeps X st)"
      using Some by (rule dragover_branches_keeps)
    fix st1 :: gstate and v :: branch_out
    show "ends (case v of Returned v \<Rightarrow> ok st1 v
                | FellThrough target' \<Rightarrow> dragover_tail H X target' st1) (keeps X st1)"
      by (cases v) (simp_all add: dragover_tail_calm ends_calm_keeps)
  qed
  with rev Some show ?thesis by (simp add: dragover_place_def)
qed

text \<open>
  The whole handler: the clone keeps its parent, or else it has come under the root in an
  evaluation that pulls clones, and has lost its parent in any other.
\<close>

lemma keeps_from:
  assumes same: "tree b = tree a" "cloneEl b = cloneEl a" "dragEl b = dragEl a" "rootEl b = rootEl a"
    and k: "keeps X b c"
    and c: "cloneEl a = Some x" "Some x \<noteq> dragEl a"
  shows "parentNode (tree c) x = parentNode (tree a) x \<or>
         (if clone_pull X c then rootEl a \<noteq> None \<and> parentNode (tree c) x = rootEl a
          else parentNode (tree c) x = None)"
proof -
  have "clone_pull X c = clone_pull X b" using k by (simp add: keeps_def clone_pull_def)
  then show ?thesis using k c same by (auto simp: keeps_def split: if_splits)
qed

lemma dragover_guard_fields:
  "tree (fst (dragover_guard H X st)) = tree st"
  "cloneEl (fst (dragover_guard H X st)) = cloneEl st"
  "dragEl (fst (dragover_guard H X st)) = dragEl st"
  "rootEl (fst (dragover_guard H X st)) = rootEl st"
  "effects (fst (dragover_guard H X st)) = effects st"
  by (simp_all add: dragover_guard_def Let_def upd_sortable_def split: option.splits)

lemma dragover_guard_revert: "snd (snd (dragover_guard H X st)) \<Longrightarrow> x_isOwner X"
  by (simp add: dragover_guard_def Let_def split: option.splits if_splits)

lemma isOwner_ctx:
  "expando st s = Some this \<Longrightarrow> x_isOwner (dragover_ctx_of st s this evt) = isOwner st s"
  by (simp add: dragover_ctx_of_def isOwner_def)

lemma onDragOver_clone:
  assumes run: "onDragOver H st s evt = Some (st', r)"
    and c: "cloneEl st = Some x" "Some x \<noteq> dragEl st"
  shows "parentNode (tree st') x = parentNode (tree st) x \<or>
         (if \<not> isOwner st s \<and> lastPutMode_of st' s = Some PullClone
          then rootEl st \<noteq> None \<and> parentNode (tree st') x = rootEl st
          else parentNode (tree st') x = None)"
proof (cases "expando st s")
  case None
  with run show ?thesis by (simp add: onDragOver_def throw_def)
next
  case (Some this)
  let ?X = "dragover_ctx_of st s this evt"
  have xs: "x_s ?X = s" by (simp add: dragover_ctx_of_def)
  have cp: "clone_pull ?X z = (\<not> isOwner st s \<and> lastPutMode_of z s = Some PullClone)" for z
    by (simp add: clone_pull_def isOwner_ctx [OF Some] xs)
  let ?st0 = "st \<lparr> ignoreNextClick := False \<rparr>"
  let ?g = "dragover_guard H ?X ?st0"
  have g: "tree (fst ?g) = tree st" "cloneEl (fst ?g) = cloneEl st" "dragEl (fst ?g) = dragEl st"
    "rootEl (fst ?g) = rootEl st"
    by (simp_all add: dragover_guard_fields)
  have place: "ends (dragover_place H ?X target (snd (snd ?g)) (fst ?g)) (keeps ?X (fst ?g))" for target
    by (rule dragover_place_keeps) (rule dragover_guard_revert)
  have comp: "ends (completed H ?X target False st) (keeps ?X st)" for target
    by (rule completed_keeps)
  have "st' = st \<or> st' = fst ?g \<or> keeps ?X st st' \<or> keeps ?X (fst ?g) st'"
    using run Some endsD [OF place] endsD [OF comp]
    by (auto simp: onDragOver_def Let_def ok_def split: option.splits if_splits)
  then show ?thesis
  proof (elim disjE)
    assume "st' = st" then show ?thesis by simp
  next
    assume "st' = fst ?g" then show ?thesis using g by simp
  next
    assume "keeps ?X st st'"
    from keeps_from [OF refl refl refl refl this c] show ?thesis by (simp only: cp)
  next
    assume "keeps ?X (fst ?g) st'"
    from keeps_from [OF g this c] show ?thesis by (simp only: cp)
  qed
qed

section \<open>How often the dragged item is moved\<close>

lemma moves_tree_op: "moves_item n e \<Longrightarrow> is_tree_op e"
  by (cases e) simp_all

lemma filter_moves_calm: "\<not> list_ex is_tree_op es \<Longrightarrow> filter (moves_item n) es = []"
  by (auto simp: filter_empty_conv list_ex_iff dest: moves_tree_op)

lemma moved_upto_refl [simp]: "moved_upto n st st" by (simp add: moved_upto_def)

lemma moved_upto_mono: "moved_upto m a b \<Longrightarrow> m \<le> n \<Longrightarrow> moved_upto n a b"
  by (fastforce simp: moved_upto_def)

lemma moved_upto_trans:
  assumes ab: "moved_upto m a b" and bc: "moved_upto n b c"
  shows "moved_upto (m + n) a c"
proof -
  from ab obtain es1 where 1: "effects b = effects a @ es1"
    "\<forall>dg. dragEl a = Some dg \<longrightarrow> cloneEl a \<noteq> Some dg \<longrightarrow> length (filter (moves_item dg) es1) \<le> m"
    and h1: "cloneEl b = cloneEl a" "dragEl b = dragEl a"
    by (auto simp: moved_upto_def)
  from bc obtain es2 where 2: "effects c = effects b @ es2"
    "\<forall>dg. dragEl b = Some dg \<longrightarrow> cloneEl b \<noteq> Some dg \<longrightarrow> length (filter (moves_item dg) es2) \<le> n"
    and h2: "cloneEl c = cloneEl b" "dragEl c = dragEl b"
    by (auto simp: moved_upto_def)
  have e: "effects c = effects a @ (es1 @ es2)" using 1(1) 2(1) by simp
  have "\<forall>dg. dragEl a = Some dg \<longrightarrow> cloneEl a \<noteq> Some dg \<longrightarrow>
          length (filter (moves_item dg) (es1 @ es2)) \<le> m + n"
    using 1(2) 2(2) h1 by (simp add: add_mono)
  then have "\<exists>es. effects c = effects a @ es \<and>
      (\<forall>dg. dragEl a = Some dg \<longrightarrow> cloneEl a \<noteq> Some dg \<longrightarrow>
          length (filter (moves_item dg) es) \<le> m + n)"
    using e by blast
  then show ?thesis using h1 h2 by (simp add: moved_upto_def)
qed

lemma calm_moved_upto: "calm s a b \<Longrightarrow> moved_upto 0 a b"
  by (auto simp: calm_def moved_upto_def filter_moves_calm)

lemma ends_calm_moved_upto: "ends m (calm s st) \<Longrightarrow> ends m (moved_upto 0 st)"
  by (erule ends_weaken) (rule calm_moved_upto)

lemma moved_upto_0n: "moved_upto 0 a b \<Longrightarrow> moved_upto n b c \<Longrightarrow> moved_upto n a c"
  using moved_upto_trans [of 0 a b n c] by simp

lemma moved_upto_n0: "moved_upto n a b \<Longrightarrow> moved_upto 0 b c \<Longrightarrow> moved_upto n a c"
  using moved_upto_trans [of n a b 0 c] by simp

lemma ends_andThen_moved_upto_0n:
  assumes "ends m (moved_upto 0 st)"
    and "\<And>st1 v. moved_upto 0 st st1 \<Longrightarrow> ends (f st1 v) (moved_upto n st1)"
  shows "ends (andThen m f) (moved_upto n st)"
proof (rule ends_andThen2 [where ?R1.0 = "moved_upto 0 st" and ?R2.0 = "moved_upto n"])
  show "ends m (moved_upto 0 st)" by (rule assms(1))
  show "\<And>st1 v. moved_upto 0 st st1 \<Longrightarrow> ends (f st1 v) (moved_upto n st1)" by (rule assms(2))
  show "\<And>b c. moved_upto 0 st b \<Longrightarrow> moved_upto n b c \<Longrightarrow> moved_upto n st c" by (rule moved_upto_0n)
  show "\<And>b. moved_upto 0 st b \<Longrightarrow> moved_upto n st b" by (erule moved_upto_mono) simp
qed

lemma ends_andThen_moved_upto_n0:
  assumes "ends m (moved_upto n st)"
    and "\<And>st1 v. moved_upto n st st1 \<Longrightarrow> ends (f st1 v) (moved_upto 0 st1)"
  shows "ends (andThen m f) (moved_upto n st)"
proof (rule ends_andThen2 [where ?R1.0 = "moved_upto n st" and ?R2.0 = "moved_upto 0"])
  show "ends m (moved_upto n st)" by (rule assms(1))
  show "\<And>st1 v. moved_upto n st st1 \<Longrightarrow> ends (f st1 v) (moved_upto 0 st1)" by (rule assms(2))
  show "\<And>b c. moved_upto n st b \<Longrightarrow> moved_upto 0 b c \<Longrightarrow> moved_upto n st c" by (rule moved_upto_n0)
  show "\<And>b. moved_upto n st b \<Longrightarrow> moved_upto n st b" .
qed

lemma ends_calm_then_moved_upto: "calm s a b \<Longrightarrow> ends m (moved_upto n b) \<Longrightarrow> ends m (moved_upto n a)"
  unfolding ends_def by (blast intro: moved_upto_0n calm_moved_upto)

lemma capture_moved_upto: "ends (capture X st) (moved_upto 0 st)"
  by (rule ends_calm_moved_upto) (rule capture_calm)

lemma st_insertBefore_moved_upto:
  "ends (st_insertBefore st p node ref) (moved_upto (if node = cloneEl st then 0 else Suc 0) st)"
  unfolding ends_def
proof (intro allI impI)
  fix st' r
  assume run: "st_insertBefore st p node ref = Some (st', r)"
  show "moved_upto (if node = cloneEl st then 0 else Suc 0) st st'"
  proof (cases "st' = st")
    case True
    then show ?thesis by simp
  next
    case False
    with run obtain n d' where n: "node = Some n"
      and st': "st' = st \<lparr> tree := d', effects := effects st @ [DomInsertBefore p n ref] \<rparr>"
      by (auto simp: st_insertBefore_def split: option.splits sum.splits)
    have "\<forall>dg. dragEl st = Some dg \<longrightarrow> cloneEl st \<noteq> Some dg \<longrightarrow>
        length (filter (moves_item dg) [DomInsertBefore p n ref])
          \<le> (if node = cloneEl st then 0 else Suc 0)"
      using n by auto
    then show ?thesis by (simp add: moved_upto_def st')
  qed
qed

lemma insert_under_root_moved_upto:
  "ends (insert_under_root st node ref) (moved_upto (if node = cloneEl st then 0 else Suc 0) st)"
  by (cases "rootEl st") (simp_all add: insert_under_root_def st_insertBefore_moved_upto)

lemma remove_from_parent_clone_moved_upto: "moved_upto 0 st (remove_from_parent st (cloneEl st))"
proof (cases "cloneEl st")
  case None
  then show ?thesis by (simp add: remove_from_parent_def)
next
  case (Some c)
  show ?thesis
  proof (cases "parentNode (tree st) c")
    case None
    with Some show ?thesis by (simp add: remove_from_parent_def)
  next
    case (Some q)
    have st': "remove_from_parent st (Some c) =
        st \<lparr> tree := detach (tree st) c, effects := effects st @ [DomRemoveChild q c] \<rparr>"
      using Some by (simp add: remove_from_parent_def)
    have "\<forall>dg. dragEl st = Some dg \<longrightarrow> cloneEl st \<noteq> Some dg \<longrightarrow>
        length (filter (moves_item dg) [DomRemoveChild q c]) \<le> 0"
      using \<open>cloneEl st = Some c\<close> by auto
    then show ?thesis
      using \<open>cloneEl st = Some c\<close> by (simp add: moved_upto_def st')
  qed
qed

lemma moved_upto_css: "moved_upto 0 st (st \<lparr> tree := css_set_display (tree st) e v \<rparr>)"
  by (simp add: moved_upto_def)

lemma moved_upto_cloneHidden: "moved_upto n a b \<Longrightarrow> moved_upto n a (b \<lparr> cloneHidden := v \<rparr>)"
  by (simp add: moved_upto_def)

lemma hideClone_moved_upto: "ends (hideClone st a) (moved_upto 0 st)"
proof -
  let ?st1 = "st \<lparr> tree := css_set_display (tree st) (cloneEl st) ''none'' \<rparr>"
  have l1: "moved_upto 0 st ?st1" by (rule moved_upto_css)
  have l2: "moved_upto 0 ?st1 (remove_from_parent ?st1 (cloneEl ?st1))"
    by (rule remove_from_parent_clone_moved_upto)
  have l3: "moved_upto 0 st (remove_from_parent ?st1 (cloneEl ?st1))"
    using l1 l2 by (rule moved_upto_0n)
  have l4: "moved_upto 0 st ((remove_from_parent ?st1 (cloneEl ?st1)) \<lparr> cloneHidden := True \<rparr>)"
    using l3 by (rule moved_upto_cloneHidden)
  have l5: "moved_upto 0 st (?st1 \<lparr> cloneHidden := True \<rparr>)"
    using l1 by (rule moved_upto_cloneHidden)
  show ?thesis
    using l1 l4 l5
    by (auto simp: hideClone_def Let_def split: option.splits)
qed

lemma showClone_moved_upto: "ends (showClone st a put) (moved_upto 0 st)"
proof (cases "expando st a")
  case None
  then show ?thesis by (simp add: showClone_def)
next
  case (Some this)
  show ?thesis
  proof (cases "lastPutMode_of st put \<noteq> Some PullClone \<or> \<not> cloneHidden st \<or> eventCanceled st \<or> dragEl st = None")
    case True
    then show ?thesis using Some hideClone_moved_upto [of st a]
      by (auto simp: showClone_def)
  next
    case False
    then obtain dg where dg: "dragEl st = Some dg" by auto
    let ?ins = "if parentNode (tree st) dg = rootEl st \<and> \<not> revertClone (group (options this))
                    then insert_under_root st (cloneEl st) (Some dg)
                    else if nextEl st \<noteq> None then insert_under_root st (cloneEl st) (nextEl st)
                    else insert_under_root st (cloneEl st) None"
    have i: "ends ?ins (moved_upto 0 st)"
      using insert_under_root_moved_upto [of st "cloneEl st"] by simp
    have rest: "\<And>st1 v. moved_upto 0 st st1 \<Longrightarrow>
        ends (andThen (if revertClone (group (options this)) then animate st1 a else ok st1 ())
                (\<lambda>st2 _. ok (st2 \<lparr> tree := css_set_display (tree st2) (cloneEl st2) [],
                                     cloneHidden := False \<rparr>) ())) (moved_upto 0 st1)"
    proof (rule ends_andThen_moved_upto_0n)
      fix st1 :: gstate
      show "ends (if revertClone (group (options this)) then animate st1 a else ok st1 ()) (moved_upto 0 st1)"
        using animate_calm [of st1 a a, THEN ends_calm_moved_upto] by simp
      fix st2 :: gstate
      show "ends (ok (st2 \<lparr> tree := css_set_display (tree st2) (cloneEl st2) [],
                                     cloneHidden := False \<rparr>) ()) (moved_upto 0 st2)"
        by (simp add: moved_upto_def)
    qed
    have "ends (andThen ?ins (\<lambda>st1 _.
                      andThen (if revertClone (group (options this)) then animate st1 a else ok st1 ())
                        (\<lambda>st2 _.
                           ok (st2 \<lparr> tree := css_set_display (tree st2) (cloneEl st2) [],
                                     cloneHidden := False \<rparr>) ()))) (moved_upto 0 st)"
      using i rest by (rule ends_andThen_moved_upto_0n)
    then show ?thesis using False Some dg by (simp add: showClone_def)
  qed
qed

lemma completed_insertion_moved_upto: "ends (completed_insertion H X target st) (moved_upto 0 st)"
  unfolding completed_insertion_def
proof (rule ends_andThen_moved_upto_0n)
  show "ends (case x_active X of None \<Rightarrow> ok st ()
        | Some a \<Rightarrow> if x_isOwner X then hideClone st a else showClone st a (x_s X)) (moved_upto 0 st)"
    by (simp add: hideClone_moved_upto showClone_moved_upto split: option.splits)
  fix st1 :: gstate
  let ?st3 = "mark_ignore X target (update_putSortable (x_s X) st1)"
  have q: "calm (x_s X) st1 ?st3"
    using calm_update_putSortable [of "x_s X" st1 "x_s X"]
      calm_mark_ignore [of "x_s X" "update_putSortable (x_s X) st1" X target]
    by (rule calm_trans)
  have "ends (completed_animation H X ?st3) (calm (x_s X) ?st3)" by (rule completed_animation_calm)
  then have "ends (completed_animation H X ?st3) (calm (x_s X) st1)"
    by (rule ends_calm_then_calm [OF q])
  then show "ends (completed_animation H X ?st3) (moved_upto 0 st1)" by (rule ends_calm_moved_upto)
qed

lemma completed_moved_upto: "ends (completed H X target insertion st) (moved_upto 0 st)"
  unfolding completed_def
proof (rule ends_andThen_moved_upto_0n)
  show "ends (if insertion then completed_insertion H X target st else ok st ()) (moved_upto 0 st)"
    by (simp add: completed_insertion_moved_upto)
  fix st1 :: gstate
  show "ends (completed_rest X target insertion st1) (moved_upto 0 st1)"
    by (rule ends_calm_moved_upto) (rule completed_rest_calm)
qed

lemma moved_upto_01: "moved_upto 0 a b \<Longrightarrow> moved_upto (Suc 0) a b"
  by (erule moved_upto_mono) simp

lemma ends_moved_upto_01: "ends m (moved_upto 0 st) \<Longrightarrow> ends m (moved_upto (Suc 0) st)"
  by (erule ends_weaken) (rule moved_upto_01)

lemma insert_drag_moved_upto: "ends (st_insertBefore st p (dragEl st) ref) (moved_upto (Suc 0) st)"
proof (cases "dragEl st = cloneEl st")
  case True
  then have "ends (st_insertBefore st p (dragEl st) ref) (moved_upto 0 st)"
    using st_insertBefore_moved_upto [of st p "dragEl st" ref] by simp
  then show ?thesis by (rule ends_moved_upto_01)
next
  case False
  then show ?thesis using st_insertBefore_moved_upto [of st p "dragEl st" ref] by simp
qed

lemma insert_drag_root_moved_upto: "ends (insert_under_root st (dragEl st) ref) (moved_upto (Suc 0) st)"
  by (cases "rootEl st") (simp_all add: insert_under_root_def insert_drag_moved_upto)

lemma dragover_revert_moved_upto: "ends (dragover_revert H X target st) (moved_upto (Suc 0) st)"
proof -
  let ?st1 = "st \<lparr> parentEl := rootEl st \<rparr>"
  have "ends (dragover_revert H X target st) (moved_upto (Suc 0) ?st1)"
    unfolding dragover_revert_def
  proof (rule ends_andThen_moved_upto_0n)
    show "ends (capture X ?st1) (moved_upto 0 ?st1)" by (rule capture_moved_upto)
    fix st2 :: gstate
    show "ends (andThen (hideClone st2 (x_s X))
            (\<lambda>st3 _. andThen (if \<not> eventCanceled st3 then insert_under_root st3 (dragEl st3) (nextEl st3)
                        else ok st3 ())
                 (\<lambda>st4 _. completed H X target True st4))) (moved_upto (Suc 0) st2)"
    proof (rule ends_andThen_moved_upto_0n)
      show "ends (hideClone st2 (x_s X)) (moved_upto 0 st2)" by (rule hideClone_moved_upto)
      fix st3 :: gstate
      show "ends (andThen (if \<not> eventCanceled st3 then insert_under_root st3 (dragEl st3) (nextEl st3)
                        else ok st3 ())
                 (\<lambda>st4 _. completed H X target True st4)) (moved_upto (Suc 0) st3)"
      proof (rule ends_andThen_moved_upto_n0)
        show "ends (if \<not> eventCanceled st3 then insert_under_root st3 (dragEl st3) (nextEl st3)
                        else ok st3 ()) (moved_upto (Suc 0) st3)"
          by (simp add: insert_drag_root_moved_upto)
        fix st4 :: gstate
        show "ends (completed H X target True st4) (moved_upto 0 st4)" by (rule completed_moved_upto)
      qed
    qed
  qed
  moreover have "calm (x_s X) st ?st1" by simp
  ultimately show ?thesis by (rule ends_calm_then_moved_upto [rotated])
qed

lemma place_and_complete_moved_upto:
  "ends (andThen (capture X st)
                (\<lambda>st2 _.
                   andThen (st_insertBefore st2 p (dragEl st2) (ref st2))
                     (\<lambda>st3 _. returning (completed H X tg True (changed X (st3 \<lparr> parentEl := Some s \<rparr>))))))
           (moved_upto (Suc 0) st)"
proof (rule ends_andThen_moved_upto_0n)
  show "ends (capture X st) (moved_upto 0 st)" by (rule capture_moved_upto)
  fix st2 :: gstate
  show "ends (andThen (st_insertBefore st2 p (dragEl st2) (ref st2))
                     (\<lambda>st3 _. returning (completed H X tg True (changed X (st3 \<lparr> parentEl := Some s \<rparr>)))))
         (moved_upto (Suc 0) st2)"
  proof (rule ends_andThen_moved_upto_n0)
    show "ends (st_insertBefore st2 p (dragEl st2) (ref st2)) (moved_upto (Suc 0) st2)"
      by (rule insert_drag_moved_upto)
    fix st3 :: gstate
    have q: "calm (x_s X) st3 (changed X (st3 \<lparr> parentEl := Some s \<rparr>))"
      using calm_parentEl [of "x_s X" st3 "Some s"] calm_changed [of "x_s X" "st3 \<lparr> parentEl := Some s \<rparr>" X]
      by (rule calm_trans)
    show "ends (returning (completed H X tg True (changed X (st3 \<lparr> parentEl := Some s \<rparr>)))) (moved_upto 0 st3)"
      using ends_calm_then_moved_upto [OF q completed_moved_upto] by simp
  qed
qed

lemma dragover_end_moved_upto:
  "ends (dragover_end H X target elLastChild st) (moved_upto (Suc 0) st)"
proof (cases "elLastChild = dragEl st")
  case True
  then show ?thesis
    using completed_moved_upto [of H X target False st, THEN ends_moved_upto_01]
    by (simp add: dragover_end_def)
next
  case False
  let ?t1 = "if elLastChild \<noteq> None \<and> Some (x_s X) = evt_target (x_evt X) then elLastChild else target"
  let ?mv = "call_onMove H X ?t1 (?t1 \<noteq> None) st"
  have q: "calm (x_s X) st (fst ?mv)" by (rule call_onMove_calm)
  show ?thesis
  proof (cases "snd ?mv = MoveFalse")
    case True
    then show ?thesis using False moved_upto_01 [OF calm_moved_upto [OF q]]
      by (simp add: dragover_end_def Let_def)
  next
    case pass: False
    have "ends (andThen (capture X (fst ?mv))
                (\<lambda>st2 _.
                   andThen (st_insertBefore st2 (x_s X) (dragEl st2)
                              (case elLastChild of None \<Rightarrow> None | Some l \<Rightarrow> nextSibling (tree st2) l))
                     (\<lambda>st3 _.
                        returning (completed H X ?t1 True
                                     (changed X (st3 \<lparr> parentEl := Some (x_s X) \<rparr>))))))
            (moved_upto (Suc 0) (fst ?mv))"
      by (rule place_and_complete_moved_upto)
    then have "ends (dragover_end H X target elLastChild st) (moved_upto (Suc 0) (fst ?mv))"
      using False pass by (simp add: dragover_end_def Let_def)
    then show ?thesis by (rule ends_calm_then_moved_upto [OF q])
  qed
qed

lemma dragover_start_moved_upto:
  "ends (dragover_start H X target st) (moved_upto (Suc 0) st)"
proof (cases "getChild st (x_s X) 0 (x_opts X) True")
  case None
  then show ?thesis by (simp add: dragover_start_def)
next
  case (Some firstChild)
  show ?thesis
  proof (cases "firstChild = dragEl st")
    case True
    then show ?thesis
      using Some completed_moved_upto [of H X target False st, THEN ends_moved_upto_01]
      by (simp add: dragover_start_def)
  next
    case False
    show ?thesis
    proof (cases firstChild)
      case None
      then show ?thesis using Some False by (simp add: dragover_start_def)
    next
      case fc: (Some fc)
      let ?mv = "call_onMove H X (Some fc) False st"
      have q: "calm (x_s X) st (fst ?mv)" by (rule call_onMove_calm)
      show ?thesis
      proof (cases "snd ?mv = MoveFalse")
        case True
        then show ?thesis using Some False fc moved_upto_01 [OF calm_moved_upto [OF q]]
          by (simp add: dragover_start_def Let_def)
      next
        case pass: False
        have "ends (andThen (capture X (fst ?mv))
                (\<lambda>st2 _.
                   andThen (st_insertBefore st2 (x_s X) (dragEl st2) (Some fc))
                     (\<lambda>st3 _.
                        returning (completed H X (Some fc) True
                                     (changed X (st3 \<lparr> parentEl := Some (x_s X) \<rparr>))))))
            (moved_upto (Suc 0) (fst ?mv))"
          by (rule place_and_complete_moved_upto [where ref = "\<lambda>_. Some fc"])
        then have "ends (dragover_start H X target st) (moved_upto (Suc 0) (fst ?mv))"
          using Some False fc pass by (simp add: dragover_start_def Let_def)
        then show ?thesis by (rule ends_calm_then_moved_upto [OF q])
      qed
    qed
  qed
qed

lemma swap_commit_moved_upto:
  assumes dg: "dragEl st = Some dg"
  shows "ends (swap_commit H X dg t vertical tb after nextSib st) (moved_upto (Suc 0) st)"
proof -
  let ?st4 = "st \<lparr> silent := True, timers := timers st @ [(30, ClearSilent)] \<rparr>"
  have c4: "calm (x_s X) st ?st4" by (simp add: calm_def lastPutMode_of_def)
  have "ends (swap_commit H X dg t vertical tb after nextSib st) (moved_upto (Suc 0) ?st4)"
    unfolding swap_commit_def
  proof (rule ends_andThen_moved_upto_0n)
    show "ends (capture X ?st4) (moved_upto 0 ?st4)" by (rule capture_moved_upto)
    fix st5 :: gstate assume a5: "moved_upto 0 ?st4 st5"
    have de: "Some dg = dragEl st5" using a5 dg by (simp add: moved_upto_def)
    show "ends (andThen (if after \<and> nextSib = None then st_insertBefore st5 (x_s X) (Some dg) None
                   else (case parentNode (tree st5) t of
                           None \<Rightarrow> ok st5 ()
                         | Some tp \<Rightarrow> st_insertBefore st5 tp (Some dg) (if after then nextSib else Some t)))
            (\<lambda>st6 _.
               (let st7 = st6 \<lparr> parentEl := parentNode (tree st6) dg \<rparr>;
                    st8 = (case tb of
                             None \<Rightarrow> st7
                           | Some b \<Rightarrow>
                               if \<not> isCircumstantialInvert st7
                               then st7 \<lparr> targetMoveDistance :=
                                           \<bar>b - side1 vertical (getRect H (tree st7) t)\<bar> \<rparr>
                               else st7)
                in returning (completed H X (Some t) True (changed X st8))))) (moved_upto (Suc 0) st5)"
    proof (rule ends_andThen_moved_upto_n0)
      show "ends (if after \<and> nextSib = None then st_insertBefore st5 (x_s X) (Some dg) None
                   else (case parentNode (tree st5) t of
                           None \<Rightarrow> ok st5 ()
                         | Some tp \<Rightarrow> st_insertBefore st5 tp (Some dg) (if after then nextSib else Some t)))
              (moved_upto (Suc 0) st5)"
        unfolding de by (simp add: insert_drag_moved_upto split: option.splits)
      fix st6 :: gstate
      let ?st7 = "st6 \<lparr> parentEl := parentNode (tree st6) dg \<rparr>"
      let ?st8 = "case tb of
                             None \<Rightarrow> ?st7
                           | Some b \<Rightarrow>
                               if \<not> isCircumstantialInvert ?st7
                               then ?st7 \<lparr> targetMoveDistance :=
                                           \<bar>b - side1 vertical (getRect H (tree ?st7) t)\<bar> \<rparr>
                               else ?st7"
      have q8: "calm (x_s X) st6 ?st8" by (simp add: calm_def lastPutMode_of_def split: option.splits)
      have q: "calm (x_s X) st6 (changed X ?st8)"
        using q8 calm_changed [of "x_s X" ?st8 X] by (rule calm_trans)
      show "ends (let st7 = st6 \<lparr> parentEl := parentNode (tree st6) dg \<rparr>;
                    st8 = (case tb of
                             None \<Rightarrow> st7
                           | Some b \<Rightarrow>
                               if \<not> isCircumstantialInvert st7
                               then st7 \<lparr> targetMoveDistance :=
                                           \<bar>b - side1 vertical (getRect H (tree st7) t)\<bar> \<rparr>
                               else st7)
                in returning (completed H X (Some t) True (changed X st8))) (moved_upto 0 st6)"
        unfolding Let_def using ends_calm_then_moved_upto [OF q completed_moved_upto] by simp
    qed
  qed
  then show ?thesis by (rule ends_calm_then_moved_upto [OF c4])
qed

lemma dragover_swap_moved_upto:
  assumes dg: "dragEl st = Some dg"
  shows "ends (dragover_swap H X dg t vertical st) (moved_upto (Suc 0) st)"
proof -
  let ?st1 = "swap_prepare H X dg t vertical st"
  let ?dir = "swap_direction H X dg t vertical st"
  have q1: "calm (x_s X) st ?st1" by simp
  show ?thesis
  proof (cases "?dir = 0 \<or> swap_sibling ?st1 dg ?dir = Some t")
    case True
    have "ends (completed H X (Some t) False ?st1) (moved_upto (Suc 0) st)"
      using q1 completed_moved_upto [of H X "Some t" False ?st1, THEN ends_moved_upto_01]
      by (rule ends_calm_then_moved_upto)
    then show ?thesis using True by (simp add: dragover_swap_def Let_def)
  next
    case False
    let ?st2 = "?st1 \<lparr> lastTarget := Some t, lastDirection := Some ?dir \<rparr>"
    let ?mv = "call_onMove H X (Some t) (?dir = 1) ?st2"
    have "calm (x_s X) ?st1 ?st2" by (simp add: calm_def lastPutMode_of_def)
    with q1 have q2: "calm (x_s X) st ?st2" by (rule calm_trans)
    have q3: "calm (x_s X) st (fst ?mv)"
      using q2 call_onMove_calm [of "x_s X" ?st2 H X "Some t" "?dir = 1"] by (rule calm_trans)
    show ?thesis
    proof (cases "snd ?mv = MoveFalse")
      case True
      then show ?thesis using False moved_upto_01 [OF calm_moved_upto [OF q3]]
        by (simp add: dragover_swap_def Let_def)
    next
      case pass: False
      have d3: "dragEl (fst ?mv) = Some dg" using q3 dg by (simp add: calm_def)
      have c: "ends (swap_commit H X dg t vertical
                 (if lastTarget st \<noteq> Some t then Some (side1 vertical (getRect H (tree st) t)) else None)
                 (if snd ?mv = MoveNumber 1 \<or> snd ?mv = MoveNumber (- 1)
                       then snd ?mv = MoveNumber 1 else ?dir = 1)
                 (nextElementSibling (tree ?st1) t) (fst ?mv)) (moved_upto (Suc 0) (fst ?mv))"
        using d3 by (rule swap_commit_moved_upto)
      have "ends (swap_commit H X dg t vertical
                 (if lastTarget st \<noteq> Some t then Some (side1 vertical (getRect H (tree st) t)) else None)
                 (if snd ?mv = MoveNumber 1 \<or> snd ?mv = MoveNumber (- 1)
                       then snd ?mv = MoveNumber 1 else ?dir = 1)
                 (nextElementSibling (tree ?st1) t) (fst ?mv)) (moved_upto (Suc 0) st)"
        using q3 c by (rule ends_calm_then_moved_upto)
      then show ?thesis using False pass by (simp add: dragover_swap_def Let_def)
    qed
  qed
qed

lemma dragover_branches_moved_upto:
  assumes dg: "dragEl st = Some dg"
  shows "ends (dragover_branches H X dg target vertical st) (moved_upto (Suc 0) st)"
proof -
  let ?l = "lastChild (tree st) (Sortable_ghost st) (x_s X) (draggable (x_opts X))"
  let ?c1 = "case ?l of None \<Rightarrow> True
             | Some l \<Rightarrow> h_ghostIsLast H (tree st) (x_evt X) vertical (x_s X) \<and> \<not> animated (tree st) l"
  show ?thesis
  proof (cases ?c1)
    case True
    then show ?thesis using dragover_end_moved_upto [of H X target ?l st]
      by (simp add: dragover_branches_def Let_def)
  next
    case c1: False
    show ?thesis
    proof (cases "h_ghostIsFirst H (tree st) (x_evt X) vertical (x_s X)")
      case True
      then show ?thesis using c1 dragover_start_moved_upto [of H X target st]
        by (simp add: dragover_branches_def Let_def)
    next
      case c2: False
      show ?thesis
      proof (cases target)
        case None
        then show ?thesis using c1 c2 by (simp add: dragover_branches_def Let_def)
      next
        case (Some t)
        show ?thesis
        proof (cases "parentNode (tree st) t = Some (x_s X)")
          case True
          then show ?thesis using c1 c2 Some dragover_swap_moved_upto [OF dg, of H X t vertical]
            by (simp add: dragover_branches_def Let_def)
        next
          case False
          then show ?thesis using c1 c2 Some by (simp add: dragover_branches_def Let_def)
        qed
      qed
    qed
  qed
qed

lemma dragover_place_moved_upto:
  "ends (dragover_place H X target revert st) (moved_upto (Suc 0) st)"
proof (cases "dragEl st")
  case None
  then show ?thesis by (simp add: dragover_place_def)
next
  case (Some dg)
  let ?v = "getDirection H st (x_opts X) (x_evt X) target = ''vertical''"
  have rev: "ends (dragover_revert H X target st) (moved_upto (Suc 0) st)"
    by (rule dragover_revert_moved_upto)
  have "ends (andThen (dragover_branches H X dg target ?v st)
              (\<lambda>st3 out.
                 case out of
                   Returned v \<Rightarrow> ok st3 v
                 | FellThrough target' \<Rightarrow> dragover_tail H X target' st3)) (moved_upto (Suc 0) st)"
  proof (rule ends_andThen_moved_upto_n0)
    show "ends (dragover_branches H X dg target ?v st) (moved_upto (Suc 0) st)"
      using Some by (rule dragover_branches_moved_upto)
    fix st1 :: gstate and v :: branch_out
    show "ends (case v of Returned v \<Rightarrow> ok st1 v
                | FellThrough target' \<Rightarrow> dragover_tail H X target' st1) (moved_upto 0 st1)"
      by (cases v) (simp_all add: dragover_tail_calm [THEN ends_calm_moved_upto])
  qed
  with rev Some show ?thesis by (simp add: dragover_place_def)
qed

lemma onDragOver_moved_upto: "ends (onDragOver H st s evt) (moved_upto (Suc 0) st)"
proof (cases "expando st s")
  case None
  then show ?thesis by (simp add: onDragOver_def)
next
  case (Some this)
  let ?X = "dragover_ctx_of st s this evt"
  let ?st0 = "st \<lparr> ignoreNextClick := False \<rparr>"
  let ?g = "dragover_guard H ?X ?st0"
  have g: "moved_upto 0 st (fst ?g)"
    by (simp add: moved_upto_def dragover_guard_fields)
  have place: "ends (dragover_place H ?X target rv (fst ?g)) (moved_upto (Suc 0) st)" for target rv
    using dragover_place_moved_upto [of H ?X target rv "fst ?g"]
    by (rule ends_weaken) (rule moved_upto_0n [OF g])
  have comp: "ends (completed H ?X target False st) (moved_upto (Suc 0) st)" for target
    by (rule ends_moved_upto_01) (rule completed_moved_upto)
  have g1: "moved_upto (Suc 0) st (fst ?g)" using g by (rule moved_upto_01)
  show ?thesis
    using Some place comp g1
    by (simp add: onDragOver_def Let_def split: option.splits)
qed

section \<open>Properties of the dragover handler\<close>

lemmas sample_defs = dragging_state_def list_state_def initial_state_def list_dom_def blank_dom_def
  sample_sortable_def sample_helpers_def sample_event_def merge_defaults_def no_options_def
  or_default_def sample_prepareGroup_def veto_helpers_def past_end_helpers_def zero_rect_def
  before_helpers_def over_item2_def sample_ctx_def

lemmas handler_defs = onDragOver_def dragover_ctx_of_def dragover_guard_def dragover_place_def
  dragover_branches_def dragover_end_def dragover_start_def dragover_swap_def swap_commit_def
  swap_prepare_def swap_direction_def swap_arguments_def swap_sibling_def differentRowCol_def
  dragover_tail_def dragover_revert_def completed_def completed_insertion_def completed_rest_def
  completed_outside_def completed_animation_def forget_lastTarget_def holder_def
  update_putSortable_def mark_ignore_def animateAll_callback_def animateAll_def
  isOutsideThisEl_def capture_def captureAnimationState_def hideClone_def showClone_def
  call_onMove_def changed_def getDirection_def getRect_def lastChild_def getChild_def
  st_insertBefore_def insertBefore_def attach_def detach_def insert_before_list_def
  upd_sortable_def andThen_def ok_def throw_def returning_def
  closest_def contains_def index_def previousElementSiblings_def children_def isElement_def
  nextSibling_def nextSiblings_def nextElementSibling_def matches_def truthy_str_def
  toUpperCase_def upper_char_def index_counts_def lastPutMode_of_def side1_def

lemmas clone_defs = two_list_dom_def other_sortable_def clone_pull_state_def clone_helpers_def
  over_item5_def shown_dom_def clone_shown_state_def dragging3_state_def over_item4_def
  insert_under_root_def css_set_display_def remove_from_parent_def

text \<open>
  C4. If, during one evaluation of a dragover event, the move hook is called and answers
  false, then that evaluation leaves the tree as it was (the children of every container,
  in their order) and the session goes on: the dragged item and the active list are the
  ones before.
\<close>

theorem veto_leaves_containers_unchanged:
  assumes run: "onDragOver H st s evt = Some (st', r)"
    and veto: "list_ex is_veto (new_effects st st')"
  shows "tree st' = tree st \<and> dragEl st' = dragEl st \<and> Sortable_active st' = Sortable_active st"
proof -
  let ?P = "{s} \<union> set_option (rootEl st)"
  have "ends (onDragOver H st s evt) (br ?P st)"
    by (rule onDragOver_br) auto
  then have "br ?P st st'" using run by (rule endsD)
  then have "veto_safe st st'" by (simp add: br_def)
  with veto show ?thesis by (auto simp: veto_safe_def vetofree_def)
qed

theorem veto_leaves_containers_unchanged_witness:
  "\<exists>st' r. onDragOver veto_helpers dragging_state 10 sample_event = Some (st', r) \<and>
      list_ex is_veto (new_effects dragging_state st') \<and>
      tree st' = tree dragging_state \<and> dragEl st' = dragEl dragging_state \<and>
      Sortable_active st' = Sortable_active dragging_state"
proof -
  obtain st' where run: "onDragOver veto_helpers dragging_state 10 sample_event = Some (st', Inr (RBool True))"
    and eff: "effects st' = [OnMoveCall 10 (Some 3) True MoveFalse, NearestEmptyInsertDetect]"
    by (simp add: handler_defs sample_defs closest_loop.simps contains_loop.simps Let_def)
  have e0: "effects dragging_state = []" by (simp add: sample_defs)
  have v: "list_ex is_veto (new_effects dragging_state st')"
    by (simp add: new_effects_def eff e0)
  from veto_leaves_containers_unchanged [OF run v] run v show ?thesis by blast
qed

text \<open>
  C8 (as amended). While the guard \<open>_silent\<close> is set, a dragover evaluation ends at once
  and leaves the whole state as it was (it returns undefined when the instance is
  registered). A swap over a sibling that changes the tree ends with the guard set and a
  timer of 30 ms pending that clears it; the timer's callback clears the guard.
\<close>

theorem guard_set_by_swap_and_suppresses:
  "(silent st \<longrightarrow>
      (\<exists>r. onDragOver H st s evt = Some (st, r)) \<and>
      (expando st s \<noteq> None \<longrightarrow> onDragOver H st s evt = Some (st, Inr RUndefined))) \<and>
   (dragover_swap H' X dg t vertical st' = Some (st'', r') \<and>
      parentNode (tree st') t = Some (x_s X) \<and> dragEl st' = Some dg \<and> tree st'' \<noteq> tree st' \<longrightarrow>
      guarded st'') \<and>
   \<not> silent (fire_timer ClearSilent st)"
proof (intro conjI impI)
  assume "silent st"
  then show "\<exists>r. onDragOver H st s evt = Some (st, r)"
    by (cases "expando st s") (simp_all add: onDragOver_def Let_def ok_def throw_def)
next
  assume "silent st" and "expando st s \<noteq> None"
  then show "onDragOver H st s evt = Some (st, Inr RUndefined)"
    by (auto simp: onDragOver_def Let_def ok_def)
next
  assume a: "dragover_swap H' X dg t vertical st' = Some (st'', r') \<and>
      parentNode (tree st') t = Some (x_s X) \<and> dragEl st' = Some dg \<and> tree st'' \<noteq> tree st'"
  have "ends (dragover_swap H' X dg t vertical st')
           (\<lambda>z. br {x_s X} st' z \<and> (tree z = tree st' \<and> silent z = silent st' \<or> guarded z))"
    by (rule dragover_swap_br) (use a in simp_all)
  from endsD [OF this, of st'' r'] a show "guarded st''" by simp
next
  show "\<not> silent (fire_timer ClearSilent st)" by (simp add: fire_timer_def)
qed

theorem guard_set_by_swap_and_suppresses_witness:
  "silent (dragging_state \<lparr> silent := True \<rparr>) \<and>
   onDragOver sample_helpers (dragging_state \<lparr> silent := True \<rparr>) 10 sample_event =
     Some (dragging_state \<lparr> silent := True \<rparr>, Inr RUndefined) \<and>
   (\<exists>st' r. dragover_swap sample_helpers (sample_ctx sample_event) 1 3 True dragging_state = Some (st', r) \<and>
      tree st' \<noteq> tree dragging_state \<and> guarded st')"
proof -
  obtain st' where run: "dragover_swap sample_helpers (sample_ctx sample_event) 1 3 True dragging_state =
        Some (st', Inr (Returned (RBool True)))"
    and ch: "childNodes (tree st') 10 = [2, 3, 1, 4]"
    by (simp add: handler_defs sample_defs closest_loop.simps contains_loop.simps Let_def)
  have ch0: "childNodes (tree dragging_state) 10 = [1, 2, 3, 4]" by (simp add: sample_defs)
  have ne: "tree st' \<noteq> tree dragging_state" using ch ch0 by auto
  have pre: "parentNode (tree dragging_state) 3 = Some (x_s (sample_ctx sample_event))"
    "dragEl dragging_state = Some 1"
    by (simp_all add: sample_defs dragover_ctx_of_def)
  have ex: "expando (dragging_state \<lparr> silent := True \<rparr>) 10 \<noteq> None" by (simp add: sample_defs)
  have g: "guarded st'"
    using guard_set_by_swap_and_suppresses
      [where H' = sample_helpers and X = "sample_ctx sample_event" and dg = 1 and t = 3
         and vertical = True and st' = dragging_state and st'' = st'
         and r' = "Inr (Returned (RBool True))"]
      run pre ne by blast
  have s: "onDragOver sample_helpers (dragging_state \<lparr> silent := True \<rparr>) 10 sample_event =
     Some (dragging_state \<lparr> silent := True \<rparr>, Inr RUndefined)"
    using guard_set_by_swap_and_suppresses
      [where st = "dragging_state \<lparr> silent := True \<rparr>" and H = sample_helpers and s = 10
         and evt = sample_event]
      ex by simp
  show ?thesis using run ne g s by auto
qed

text \<open>
  An insert at the end of the list: the dragged item 1 moves behind item 4, and the guard
  is not set and no timer is pending afterwards. So not every committed placement sets
  the guard.
\<close>

theorem end_insert_leaves_guard_unset:
  "run_children (onDragOver past_end_helpers dragging_state 10 sample_event) 10 = Some [2, 3, 4, 1] \<and>
   childNodes (tree dragging_state) 10 = [1, 2, 3, 4] \<and>
   run_silent (onDragOver past_end_helpers dragging_state 10 sample_event) = Some False \<and>
   run_timers (onDragOver past_end_helpers dragging_state 10 sample_event) = Some [] \<and>
   run_result (onDragOver past_end_helpers dragging_state 10 sample_event) = Some (Inr (RBool True))"
  by (simp add: run_children_def run_silent_def run_timers_def run_result_def
      handler_defs sample_defs closest_loop.simps contains_loop.simps Let_def)

text \<open>
  What the walk finds. For the direction 1 (after the target) it goes from the dragged
  item's index towards the start of the list and finds the nearest child before the item
  that is neither hidden nor the ghost; for the direction -1 it goes towards the end and
  finds the nearest such child behind the item. So the walk ends at the target exactly
  when the dragged item already lies beside the target on the decided side.
\<close>

lemma sibling_walk_after:
  assumes "j \<le> length kids"
  shows "sibling_walk d ghost kids 1 (int j) =
           (case dropWhile (\<lambda>x. computed_display d x = ''none'' \<or> Some x = ghost)
                   (rev (take j kids)) of
              [] \<Rightarrow> None
            | x # _ \<Rightarrow> Some x)"
  using assms
proof (induction j)
  case 0
  show ?case by (subst sibling_walk.simps) simp
next
  case (Suc n)
  then have n: "n < length kids" by simp
  have tk: "rev (take (Suc n) kids) = kids ! n # rev (take n kids)"
    using n by (simp add: take_Suc_conv_app_nth)
  have ih: "sibling_walk d ghost kids 1 (int n) =
           (case dropWhile (\<lambda>x. computed_display d x = ''none'' \<or> Some x = ghost)
                   (rev (take n kids)) of
              [] \<Rightarrow> None
            | x # _ \<Rightarrow> Some x)"
    using Suc.IH n by simp
  have e: "int (Suc n) - 1 = int n" by simp
  show ?case
    apply (subst sibling_walk.simps)
    apply (simp only: Let_def e tk)
    using n apply (simp add: ih del: sibling_walk.simps)
    done
qed

lemma sibling_walk_before:
  "sibling_walk d ghost kids (- 1) (int j - 1) =
           (case dropWhile (\<lambda>x. computed_display d x = ''none'' \<or> Some x = ghost)
                   (drop j kids) of
              [] \<Rightarrow> None
            | x # _ \<Rightarrow> Some x)"
proof (induction "length kids - j" arbitrary: j)
  case 0
  then have "drop j kids = []" "\<not> int j < int (length kids)" by auto
  then show ?case
    by (subst sibling_walk.simps) (simp add: Let_def del: sibling_walk.simps)
next
  case (Suc n)
  then have lt: "j < length kids" by auto
  have dr: "drop j kids = kids ! j # drop (Suc j) kids"
    using lt by (simp add: Cons_nth_drop_Suc)
  have ih: "sibling_walk d ghost kids (- 1) (int (Suc j) - 1) =
           (case dropWhile (\<lambda>x. computed_display d x = ''none'' \<or> Some x = ghost)
                   (drop (Suc j) kids) of
              [] \<Rightarrow> None
            | x # _ \<Rightarrow> Some x)"
    using Suc.hyps(1) [of "Suc j"] Suc.hyps(2) by simp
  have e: "int j - 1 - - 1 = int j" "int (Suc j) - 1 = int j" by simp_all
  show ?case
    apply (subst sibling_walk.simps)
    apply (simp only: Let_def e dr)
    using lt ih apply (simp add: e del: sibling_walk.simps drop_Suc)
    done
qed

lemma completed_False_helpers:
  "completed H X target False st = completed H' X target False st"
  by (simp add: completed_def)

text \<open>
  In a swap evaluation, let the walk from the dragged item's index through the children
  of \<open>parentEl\<close>, in steps of minus the decided direction and past hidden elements and
  the ghost, end at the target. Then the direction was not 0, the evaluation runs exactly
  as if the direction had been 0 (it ends through \<open>completed(false)\<close>), and the tree is
  not changed: nothing is inserted.
\<close>

lemma walk_to_target_forces_no_move:
  assumes adj: "swap_sibling (swap_prepare H X dg t vertical st) dg
                  (swap_direction H X dg t vertical st) = Some t"
  shows "swap_direction H X dg t vertical st \<noteq> 0 \<and>
         dragover_swap H X dg t vertical st =
           dragover_swap (H \<lparr> h_getSwapDirection := (\<lambda>_. 0) \<rparr>) X dg t vertical st \<and>
         (\<forall>st' r. dragover_swap H X dg t vertical st = Some (st', r) \<longrightarrow> tree st' = tree st)"
proof -
  let ?H0 = "H \<lparr> h_getSwapDirection := (\<lambda>_. 0) \<rparr>"
  let ?st1 = "swap_prepare H X dg t vertical st"
  have nz: "swap_direction H X dg t vertical st \<noteq> 0"
  proof
    assume "swap_direction H X dg t vertical st = 0"
    with adj show False by (simp add: swap_sibling_def)
  qed
  have p: "swap_prepare ?H0 X dg t vertical st = ?st1"
    by (simp add: swap_prepare_def differentRowCol_def getRect_def)
  have z: "swap_direction ?H0 X dg t vertical st = 0"
    by (simp add: swap_direction_def)
  have a: "dragover_swap H X dg t vertical st = returning (completed H X (Some t) False ?st1)"
    using adj by (simp add: dragover_swap_def Let_def)
  have b: "dragover_swap ?H0 X dg t vertical st = returning (completed ?H0 X (Some t) False ?st1)"
    unfolding dragover_swap_def Let_def p z by simp
  have eq: "dragover_swap H X dg t vertical st = dragover_swap ?H0 X dg t vertical st"
    unfolding a b using completed_False_helpers [of H X "Some t" ?st1 ?H0] by simp
  have e: "ends (dragover_swap H X dg t vertical st) (quiet ?st1)"
    unfolding a ends_returning by (rule completed_False_quiet)
  have t1: "tree ?st1 = tree st" by (simp add: swap_prepare_def)
  have "\<forall>st' r. dragover_swap H X dg t vertical st = Some (st', r) \<longrightarrow> tree st' = tree st"
  proof (intro allI impI)
    fix st' r assume "dragover_swap H X dg t vertical st = Some (st', r)"
    from endsD [OF e this] have "tree st' = tree ?st1" by (simp only: quiet_def)
    with t1 show "tree st' = tree st" by simp
  qed
  with nz eq show ?thesis by blast
qed

lemma walk_to_target_forces_no_move_example:
  "swap_sibling (swap_prepare before_helpers (sample_ctx over_item2) 1 2 True dragging_state) 1
      (swap_direction before_helpers (sample_ctx over_item2) 1 2 True dragging_state) = Some 2 \<and>
   swap_direction before_helpers (sample_ctx over_item2) 1 2 True dragging_state = - 1 \<and>
   run_children (dragover_swap before_helpers (sample_ctx over_item2) 1 2 True dragging_state) 10
     = Some [1, 2, 3, 4] \<and>
   run_effects (dragover_swap before_helpers (sample_ctx over_item2) 1 2 True dragging_state)
     = Some [NearestEmptyInsertDetect]"
proof -
  have d: "swap_direction before_helpers (sample_ctx over_item2) 1 2 True dragging_state = - 1"
    by (simp add: swap_direction_def before_helpers_def sample_helpers_def)
  have adj: "swap_sibling (swap_prepare before_helpers (sample_ctx over_item2) 1 2 True dragging_state) 1
      (swap_direction before_helpers (sample_ctx over_item2) 1 2 True dragging_state) = Some 2"
    unfolding d by (simp add: handler_defs sample_defs)
  have run: "run_children (dragover_swap before_helpers (sample_ctx over_item2) 1 2 True dragging_state) 10
     = Some [1, 2, 3, 4] \<and>
     run_effects (dragover_swap before_helpers (sample_ctx over_item2) 1 2 True dragging_state)
     = Some [NearestEmptyInsertDetect]"
    by (simp add: run_children_def run_effects_def handler_defs sample_defs closest_loop.simps
        contains_loop.simps Let_def)
  from walk_to_target_forces_no_move [OF adj] adj d run show ?thesis by simp
qed

text \<open>
  C6. The walk takes the dragged item's index from \<open>index\<close>, which leaves out template
  nodes and the clone, and steps through \<open>parentEl.children\<close>, which has them. In the
  list 10 item 3 lies directly before item 4, behind the template node 2, and the decided
  direction is -1, before the target: the item is already where it is to go. Its index is 1,
  the walk looks at the child at position 2, which is item 3 itself, and ends there and not
  at the target. So the move hook is called, \<open>insertBefore\<close> puts item 3 before item 4
  again, and the guard is set with its timer: the decision is not forced to 0.
\<close>

theorem adjacent_item_behind_template_reinserted:
  "childNodes (tree dragging3_state) 10 = [1, 2, 3, 4] \<and>
   nodeName (tree dragging3_state) 2 = ''template'' \<and>
   dragEl dragging3_state = Some 3 \<and>
   swap_direction before_helpers (sample_ctx over_item4) 3 4 True dragging3_state = - 1 \<and>
   index (tree dragging3_state) (Sortable_clone dragging3_state) (Some 3) None = 1 \<and>
   swap_sibling dragging3_state 3 (- 1) = Some 3 \<and>
   run_effects (onDragOver before_helpers dragging3_state 10 over_item4) =
     Some [OnMoveCall 10 (Some 4) False MoveOther, CaptureAnimationState 10,
           DomInsertBefore 10 3 (Some 4), AnimateAll 10] \<and>
   run_silent (onDragOver before_helpers dragging3_state 10 over_item4) = Some True \<and>
   run_timers (onDragOver before_helpers dragging3_state 10 over_item4) = Some [(30, ClearSilent)] \<and>
   run_children (onDragOver before_helpers dragging3_state 10 over_item4) 10 = Some [1, 2, 3, 4]"
  by (simp add: handler_defs sample_defs clone_defs closest_loop.simps contains_loop.simps Let_def
        run_children_def run_effects_def run_silent_def run_timers_def)

lemma count_all_items:
  assumes wf: "wf_dom d" and fin: "finite C"
  shows "count (all_items C d) x = (if parentNode d x \<in> Some ` C then 1 else 0)"
proof -
  have each: "count (mset (childNodes d c)) x = (if parentNode d x = Some c then 1 else 0)" for c
  proof -
    have dist: "distinct (childNodes d c)" using wf by (simp add: wf_dom_def)
    have mem: "(x \<in> set (childNodes d c)) = (parentNode d x = Some c)"
      using wf by (simp add: wf_dom_def)
    show ?thesis
    proof (cases "x \<in> set (childNodes d c)")
      case True
      with dist have "count (mset (childNodes d c)) x = 1" by (simp add: distinct_count_atmost_1)
      with True mem show ?thesis by simp
    next
      case False
      then have "count (mset (childNodes d c)) x = 0" by (simp add: count_eq_zero_iff)
      with False mem show ?thesis by simp
    qed
  qed
  have "count (all_items C d) x = (\<Sum>c\<in>C. count (mset (childNodes d c)) x)"
    by (simp add: all_items_def count_sum)
  also have "\<dots> = (\<Sum>c\<in>C. if parentNode d x = Some c then 1 else 0)"
    by (simp only: each)
  also have "\<dots> = (if parentNode d x \<in> Some ` C then 1 else 0)"
  proof (cases "parentNode d x")
    case None
    then show ?thesis by simp
  next
    case (Some p)
    have "(\<Sum>c\<in>C. if Some p = Some c then 1 else 0) = (\<Sum>c\<in>C. if p = c then (1::nat) else 0)"
      by simp
    also have "\<dots> = (if p \<in> C then 1 else 0)" using fin by (simp only: sum.delta')
    finally show ?thesis using Some by auto
  qed
  finally show ?thesis .
qed

lemma wf_list_dom: "wf_dom list_dom"
  by (auto simp: wf_dom_def list_dom_def blank_dom_def)

lemma wf_two_list_dom: "wf_dom two_list_dom"
  by (auto simp: wf_dom_def two_list_dom_def list_dom_def blank_dom_def)

text \<open>
  C1 (as amended). Let \<open>C\<close> be a finite set of containers that holds the list under the
  pointer, the root list of the session and the parent of the dragged item, in a
  well-formed tree, and let the clone of the session be a node other than the dragged
  item. Every evaluation of a dragover event that ends (with an insert at the end, an
  insert at the start, a swap, a revert or no placement at all)

  \<^item> leaves the multiset of the items of \<open>C\<close> other than the clone as it was: the dragged
    item is only relocated, nothing else is duplicated or dropped;

  \<^item> records at most one tree operation on the dragged item, the \<open>insertBefore\<close> or
    \<open>appendChild\<close> that takes it out of its old place and puts it into the new one;

  \<^item> when the list under the pointer is not the owner's and its pull mode is \<open>clone\<close>,
    drops no item at all and adds at most one, the clone;

  \<^item> otherwise adds no item at all: the only item that may leave is the clone.
\<close>

theorem placement_conserves_items:
  assumes run: "onDragOver H st s evt = Some (st', r)"
    and wf: "wf_dom (tree st)"
    and fin: "finite C"
    and s: "s \<in> C"
    and root: "\<forall>r. rootEl st = Some r \<longrightarrow> r \<in> C"
    and dg: "dragEl st = Some dg"
    and par: "parentNode (tree st) dg \<in> Some ` C"
    and cl: "cloneEl st \<noteq> Some dg"
  shows "filter_mset (\<lambda>x. Some x \<noteq> cloneEl st) (all_items C (tree st')) =
           filter_mset (\<lambda>x. Some x \<noteq> cloneEl st) (all_items C (tree st)) \<and>
         length (filter (moves_item dg) (new_effects st st')) \<le> 1 \<and>
         (if \<not> isOwner st s \<and> lastPutMode_of st' s = Some PullClone
          then all_items C (tree st) \<subseteq># all_items C (tree st') \<and>
               all_items C (tree st') \<subseteq>#
                 all_items C (tree st) + (case cloneEl st of None \<Rightarrow> {#} | Some c \<Rightarrow> {#c#})
          else all_items C (tree st') \<subseteq># all_items C (tree st))"
proof -
  let ?P = "{s} \<union> set_option (rootEl st)"
  let ?cp = "\<not> isOwner st s \<and> lastPutMode_of st' s = Some PullClone"
  have PC: "?P \<subseteq> C" using s root by auto
  have "ends (onDragOver H st s evt) (br ?P st)"
    by (rule onDragOver_br) auto
  then have "br ?P st st'" using run by (rule endsD)
  then have str: "struct ?P st st'" by (simp add: br_def)
  have wf': "wf_dom (tree st')" using structD(6) [OF str wf] .
  have cnt: "count (all_items C (tree st)) x = (if parentNode (tree st) x \<in> Some ` C then 1 else 0)"
    "count (all_items C (tree st')) x = (if parentNode (tree st') x \<in> Some ` C then 1 else 0)" for x
    by (rule count_all_items [OF wf fin], rule count_all_items [OF wf' fin])
  have same: "count (all_items C (tree st')) x = count (all_items C (tree st)) x"
    if x: "Some x \<noteq> cloneEl st" for x
  proof -
    from structD(7) [OF str x]
    have "(parentNode (tree st') x \<in> Some ` C) = (parentNode (tree st) x \<in> Some ` C)"
    proof
      assume "parentNode (tree st') x = parentNode (tree st) x"
      then show ?thesis by simp
    next
      assume a: "Some x = dragEl st \<and> parentNode (tree st') x \<in> Some ` ?P"
      then have "parentNode (tree st') x \<in> Some ` C" using PC by blast
      moreover have "parentNode (tree st) x \<in> Some ` C" using a dg par by simp
      ultimately show ?thesis by simp
    qed
    then show ?thesis by (simp only: cnt)
  qed
  have 1: "filter_mset (\<lambda>x. Some x \<noteq> cloneEl st) (all_items C (tree st')) =
           filter_mset (\<lambda>x. Some x \<noteq> cloneEl st) (all_items C (tree st))"
    by (rule multiset_eqI) (simp add: same)
  have "ends (onDragOver H st s evt) (moved_upto (Suc 0) st)" by (rule onDragOver_moved_upto)
  then have "moved_upto (Suc 0) st st'" using run by (rule endsD)
  then obtain es where es: "effects st' = effects st @ es"
    "length (filter (moves_item dg) es) \<le> Suc 0"
    using dg cl by (auto simp: moved_upto_def)
  have 2: "length (filter (moves_item dg) (new_effects st st')) \<le> 1"
    using es by (simp add: new_effects_def)
  have clone: "parentNode (tree st') c = parentNode (tree st) c \<or>
         (if ?cp then rootEl st \<noteq> None \<and> parentNode (tree st') c = rootEl st
          else parentNode (tree st') c = None)" if c: "cloneEl st = Some c" for c
    using onDragOver_clone [OF run c] c cl dg by auto
  have 3: "all_items C (tree st) \<subseteq># all_items C (tree st')" if cp: ?cp
  proof (rule mset_subset_eqI)
    fix x
    show "count (all_items C (tree st)) x \<le> count (all_items C (tree st')) x"
    proof (cases "Some x = cloneEl st")
      case False
      then show ?thesis by (simp add: same)
    next
      case True
      then have "parentNode (tree st') x = parentNode (tree st) x \<or>
          (rootEl st \<noteq> None \<and> parentNode (tree st') x = rootEl st)"
        using clone [of x] cp by simp
      then show ?thesis using root by (auto simp: cnt)
    qed
  qed
  have 4: "all_items C (tree st') \<subseteq>#
             all_items C (tree st) + (case cloneEl st of None \<Rightarrow> {#} | Some c \<Rightarrow> {#c#})"
  proof (rule mset_subset_eqI)
    fix x
    show "count (all_items C (tree st')) x \<le>
          count (all_items C (tree st) + (case cloneEl st of None \<Rightarrow> {#} | Some c \<Rightarrow> {#c#})) x"
    proof (cases "Some x = cloneEl st")
      case False
      then show ?thesis by (simp add: same)
    next
      case True
      then have "cloneEl st = Some x" by simp
      then show ?thesis by (simp add: cnt)
    qed
  qed
  have 5: "all_items C (tree st') \<subseteq># all_items C (tree st)" if ncp: "\<not> ?cp"
  proof (rule mset_subset_eqI)
    fix x
    show "count (all_items C (tree st')) x \<le> count (all_items C (tree st)) x"
    proof (cases "Some x = cloneEl st")
      case False
      then show ?thesis by (simp add: same)
    next
      case True
      then have "parentNode (tree st') x = parentNode (tree st) x \<or> parentNode (tree st') x = None"
        using clone [of x] ncp by auto
      then show ?thesis by (auto simp: cnt)
    qed
  qed
  show ?thesis
  proof (cases ?cp)
    case True
    with 1 2 3 4 show ?thesis by simp
  next
    case False
    from 5 [OF False] have "all_items C (tree st') \<subseteq># all_items C (tree st)" .
    with 1 2 False show ?thesis by auto
  qed
qed

theorem placement_conserves_items_witness:
  "run_children (onDragOver clone_helpers clone_pull_state 20 over_item5) 10 = Some [99, 2, 3, 4] \<and>
   run_children (onDragOver clone_helpers clone_pull_state 20 over_item5) 20 = Some [5, 1] \<and>
   childNodes (tree clone_pull_state) 10 = [1, 2, 3, 4] \<and>
   childNodes (tree clone_pull_state) 20 = [5] \<and>
   cloneEl clone_pull_state = Some 99 \<and> dragEl clone_pull_state = Some 1 \<and>
   \<not> isOwner clone_pull_state 20 \<and>
   (\<exists>st' r. onDragOver clone_helpers clone_pull_state 20 over_item5 = Some (st', r) \<and>
      lastPutMode_of st' 20 = Some PullClone \<and>
      filter_mset (\<lambda>x. x \<noteq> 99) (all_items {10, 20} (tree st')) =
        filter_mset (\<lambda>x. x \<noteq> 99) (all_items {10, 20} (tree clone_pull_state)) \<and>
      length (filter (moves_item 1) (new_effects clone_pull_state st')) \<le> 1 \<and>
      all_items {10, 20} (tree clone_pull_state) \<subseteq># all_items {10, 20} (tree st') \<and>
      all_items {10, 20} (tree st') \<subseteq># all_items {10, 20} (tree clone_pull_state) + {#99#})"
proof -
  obtain st' where run: "onDragOver clone_helpers clone_pull_state 20 over_item5 = Some (st', Inr (RBool True))"
    and ch: "childNodes (tree st') 10 = [99, 2, 3, 4]" "childNodes (tree st') 20 = [5, 1]"
    and mode: "lastPutMode_of st' 20 = Some PullClone"
    by (simp add: handler_defs sample_defs clone_defs closest_loop.simps contains_loop.simps Let_def)
  have t: "tree clone_pull_state = two_list_dom" by (simp add: clone_defs)
  have wf: "wf_dom (tree clone_pull_state)" unfolding t by (rule wf_two_list_dom)
  have r: "\<forall>r. rootEl clone_pull_state = Some r \<longrightarrow> r \<in> {10, 20}"
    by (simp add: clone_defs sample_defs)
  have d: "dragEl clone_pull_state = Some 1" by (simp add: clone_defs sample_defs)
  have p: "parentNode (tree clone_pull_state) 1 \<in> Some ` {10, 20}"
    by (simp add: clone_defs sample_defs)
  have c: "cloneEl clone_pull_state = Some 99" by (simp add: clone_defs sample_defs)
  have c': "cloneEl clone_pull_state \<noteq> Some 1" by (simp add: c)
  have c0: "childNodes (tree clone_pull_state) 10 = [1, 2, 3, 4]"
    "childNodes (tree clone_pull_state) 20 = [5]"
    by (simp_all add: clone_defs sample_defs)
  have own: "\<not> isOwner clone_pull_state 20"
    by (simp add: isOwner_def clone_defs sample_defs)
  from placement_conserves_items [where C = "{10, 20}", OF run wf _ _ r d p c'] run ch c0 c d own mode
  show ?thesis by (simp add: run_children_def)
qed

text \<open>
  Item 1 has been pulled into the list 20 and its clone 99 is shown in the list 10. A swap
  in the list 10, the owner's, brings item 1 back behind item 3 and hides the clone, which
  takes it out of the list: a placement that is no clone pull drops an item.
\<close>

theorem owner_placement_takes_clone_out:
  "run_children (onDragOver sample_helpers clone_shown_state 10 sample_event) 10 = Some [2, 3, 1, 4] \<and>
   run_children (onDragOver sample_helpers clone_shown_state 10 sample_event) 20 = Some [5] \<and>
   childNodes (tree clone_shown_state) 10 = [99, 2, 3, 4] \<and>
   childNodes (tree clone_shown_state) 20 = [5, 1] \<and>
   cloneEl clone_shown_state = Some 99 \<and> dragEl clone_shown_state = Some 1 \<and>
   isOwner clone_shown_state 10 \<and>
   all_items {10, 20} (tree clone_shown_state) = mset [99, 2, 3, 4, 5, 1] \<and>
   map_option (\<lambda>s. all_items {10, 20} (tree s))
     (run_state (onDragOver sample_helpers clone_shown_state 10 sample_event)) = Some (mset [2, 3, 1, 4, 5])"
  by (simp add: handler_defs sample_defs clone_defs closest_loop.simps contains_loop.simps Let_def
        run_children_def run_state_def isOwner_def all_items_def)

end
